theory Spec2Isabelle
  imports Complex_Main "HOL-Library.Word"
begin

section \<open>Fatal outcomes\<close>

text \<open>
  The three ways the code ends the process on purpose: glog's \<open>CHECK\<close> and
  \<open>CHECK_ERR\<close> (always compiled in), \<open>PCHECK\<close> (always compiled in) and the C
  \<open>assert\<close> (compiled in unless NDEBUG is defined). Each carries the text that identifies
  the failed condition.
\<close>

datatype fatal = CheckFailed string | PCheckFailed string | AssertionFailed string

section \<open>SignalHandler.cpp: the fatal signal callback registry\<close>

text \<open>
  \<open>SignalCallback\<close> is a \<open>void (*)()\<close>: a callback is modelled by what it does to the
  state \<open>'u\<close> that user code owns. A member \<open>x_\<close> of the source is written
  \<open>x'\<close> (a name cannot end in an underscore here). \<open>mutex_\<close> only serialises \<open>add\<close> and
  \<open>markInstalled\<close>; each is one atomic step of the model.
\<close>

record 'u FatalSignalCallbackRegistry =
  installed' :: bool
  handlers' :: "('u \<Rightarrow> 'u) list"

definition FatalSignalCallbackRegistry_new :: "'u FatalSignalCallbackRegistry" where
  "FatalSignalCallbackRegistry_new = \<lparr>installed' = False, handlers' = []\<rparr>"

definition add_message :: string where
  "add_message =
     ''FatalSignalCallbackRegistry::add may not be used after installing the signal handlers.''"

definition markInstalled_message :: string where
  "markInstalled_message =
     ''FatalSignalCallbackRegistry::markInstalled must be called at most once''"

definition add ::
  "'u FatalSignalCallbackRegistry \<Rightarrow> ('u \<Rightarrow> 'u) \<Rightarrow> fatal + 'u FatalSignalCallbackRegistry" where
  "add r func =
     (if installed' r then Inl (CheckFailed add_message)
      else Inr (r\<lparr>handlers' := handlers' r @ [func]\<rparr>))"

text \<open>\<open>installed_.exchange(true)\<close> stores true and yields the old value, which \<open>CHECK\<close> tests.\<close>

definition markInstalled ::
  "'u FatalSignalCallbackRegistry \<Rightarrow> fatal + 'u FatalSignalCallbackRegistry" where
  "markInstalled r =
     (if installed' r then Inl (CheckFailed markInstalled_message)
      else Inr (r\<lparr>installed' := True\<rparr>))"

definition run :: "'u FatalSignalCallbackRegistry \<Rightarrow> 'u \<Rightarrow> 'u" where
  "run r u = (if \<not> installed' r then u else foldl (\<lambda>w fn. fn w) u (handlers' r))"

text \<open>The public entry points act on the one leaked registry of the process.\<close>

definition addFatalSignalCallback ::
  "('u \<Rightarrow> 'u) \<Rightarrow> 'u FatalSignalCallbackRegistry \<Rightarrow> fatal + 'u FatalSignalCallbackRegistry" where
  "addFatalSignalCallback cb r = add r cb"

definition installFatalSignalCallbacks ::
  "'u FatalSignalCallbackRegistry \<Rightarrow> fatal + 'u FatalSignalCallbackRegistry" where
  "installFatalSignalCallbacks r = markInstalled r"

text \<open>A run of registration calls, in program order; it ends at the first fatal one.\<close>

datatype 'u registration = AddFatalSignalCallback "'u \<Rightarrow> 'u" | InstallFatalSignalCallbacks

fun registration_step ::
  "'u registration \<Rightarrow> 'u FatalSignalCallbackRegistry \<Rightarrow> fatal + 'u FatalSignalCallbackRegistry" where
  "registration_step (AddFatalSignalCallback cb) r = addFatalSignalCallback cb r"
| "registration_step InstallFatalSignalCallbacks r = installFatalSignalCallbacks r"

fun registrations ::
  "'u registration list \<Rightarrow> 'u FatalSignalCallbackRegistry \<Rightarrow> fatal + 'u FatalSignalCallbackRegistry" where
  "registrations [] r = Inr r"
| "registrations (c # cs) r =
     (case registration_step c r of Inl e \<Rightarrow> Inl e | Inr r' \<Rightarrow> registrations cs r')"

section \<open>SignalHandler.cpp: the process state the handler works on\<close>

text \<open>
  \<open>pthread_t\<close> is an unsigned long on Linux, and so is an address. \<open>struct sigaction\<close>
  is what it holds: the handler, the mask and the flags. The constants of
  \<open>signal.h\<close> have their Linux (asm-generic) values.
\<close>

type_synonym pthread_t = "64 word"
type_synonym addr = "64 word"

datatype sighandler = SIG_DFL | SIG_IGN | UserHandler addr | SignalHandlerFn

datatype sa_flag = SA_SIGINFO | SA_ONSTACK | SA_OtherFlag nat

record sigaction =
  sa_handler :: sighandler
  sa_mask :: "int list"
  sa_flags :: "sa_flag list"

text \<open>\<open>memset(&sa, 0, sizeof(sa))\<close>: every field zero, and \<open>SIG_DFL\<close> is 0.\<close>

definition sigaction_zero :: sigaction where
  "sigaction_zero = \<lparr>sa_handler = SIG_DFL, sa_mask = [], sa_flags = []\<rparr>"

definition SIGILL :: int where "SIGILL = 4"
definition SIGTRAP :: int where "SIGTRAP = 5"
definition SIGABRT :: int where "SIGABRT = 6"
definition SIGBUS :: int where "SIGBUS = 7"
definition SIGFPE :: int where "SIGFPE = 8"
definition SIGSEGV :: int where "SIGSEGV = 11"
definition SIGTERM :: int where "SIGTERM = 15"
definition SIGCHLD :: int where "SIGCHLD = 17"
definition SIGIO :: int where "SIGIO = 29"
definition SI_KERNEL :: int where "SI_KERNEL = 128"

record FatalSignal =
  number :: int
  name :: string
  oldAction :: sigaction

text \<open>
  The table ends at the entry whose \<open>name\<close> is null; every loop over it stops there, so
  the list holds the entries before it. \<open>oldAction\<close> is static storage: zero at start.
\<close>

definition kFatalSignals_initial :: "FatalSignal list" where
  "kFatalSignals_initial =
     [\<lparr>number = SIGSEGV, name = ''SIGSEGV'', oldAction = sigaction_zero\<rparr>,
      \<lparr>number = SIGILL, name = ''SIGILL'', oldAction = sigaction_zero\<rparr>,
      \<lparr>number = SIGFPE, name = ''SIGFPE'', oldAction = sigaction_zero\<rparr>,
      \<lparr>number = SIGABRT, name = ''SIGABRT'', oldAction = sigaction_zero\<rparr>,
      \<lparr>number = SIGBUS, name = ''SIGBUS'', oldAction = sigaction_zero\<rparr>,
      \<lparr>number = SIGTERM, name = ''SIGTERM'', oldAction = sigaction_zero\<rparr>]"

text \<open>
  What the handler does to the world outside its own variables, in the order it does it:
  the calls on \<open>gPrinter\<close> (a buffered writer on stderr), the symbolizer, \<open>fsync\<close>,
  \<open>sigaction\<close> and \<open>raise\<close>, and the stores to the atomic \<open>gSignalThread\<close>.
  \<open>PrintDec v\<close> is \<open>printDec(v)\<close>: the decimal digits that \<open>uint64ToBufferUnsafe\<close>
  (folly/Conv.h) writes, printed. \<open>PrintAddress a\<close> is
  \<open>print(formatter.format(a))\<close> of an \<open>AddressFormatter\<close> (Symbolizer.h).
\<close>

datatype effect =
    Print string
  | PrintDec "64 word"
  | PrintAddress addr
  | Symbolize "addr list"
  | Println "addr list" nat
  | Flush
  | Fsync
  | Store_gSignalThread pthread_t
  | Sigaction int sigaction
  | Raise int

record 'u process =
  gFatalSignalCallbackRegistry :: "'u FatalSignalCallbackRegistry"
  kFatalSignals :: "FatalSignal list"
  gSignalThread :: pthread_t
  gInRecursiveSignalHandler :: bool
  gAlreadyInstalled :: bool
  disposition :: "int \<Rightarrow> sigaction"
  effects :: "effect list"
  user :: 'u

definition kInvalidThreadId :: pthread_t where
  "kInvalidThreadId = 0"

text \<open>The process as its static initialisers leave it, given the dispositions it starts with.\<close>

definition process_initial :: "(int \<Rightarrow> sigaction) \<Rightarrow> 'u \<Rightarrow> 'u process" where
  "process_initial disp u =
     \<lparr>gFatalSignalCallbackRegistry = FatalSignalCallbackRegistry_new,
      kFatalSignals = kFatalSignals_initial,
      gSignalThread = kInvalidThreadId,
      gInRecursiveSignalHandler = False,
      gAlreadyInstalled = False,
      disposition = disp,
      effects = [],
      user = u\<rparr>"

text \<open>
  What one invocation of the handler reads from the system: the calling thread, the clock,
  the process and thread ids, and the frames \<open>getStackTraceSafe\<close> captured
  (\<open>None\<close> when it fails).
\<close>

record os =
  pthread_self :: pthread_t
  time_now :: int
  getpid :: int
  gettid :: int
  getStackTraceSafe :: "addr list option"

record siginfo_t =
  si_addr :: addr
  si_code :: int
  si_pid :: int
  si_uid :: nat

definition emit :: "effect list \<Rightarrow> 'u process \<Rightarrow> 'u process" where
  "emit es s = s\<lparr>effects := effects s @ es\<rparr>"

text \<open>An \<open>int\<close> or \<open>long\<close> passed to \<open>printDec(uint64_t)\<close> is converted modulo \<open>2^64\<close>.\<close>

definition printDec :: "int \<Rightarrow> effect" where
  "printDec val = PrintDec (word_of_int val)"

definition kHexChars :: string where
  "kHexChars = ''0123456789abcdef''"

text \<open>
  The do-while loop of \<open>printHex\<close>, writing the digits from the end of the buffer, on
  the value as a natural number: \<open>val & 0x0f\<close> is \<open>val mod 16\<close> and \<open>val >>= 4\<close> is
  \<open>val div 16\<close>.
\<close>

fun hex_digits :: "nat \<Rightarrow> string \<Rightarrow> string" where
  "hex_digits val buf =
     (if val div 16 \<noteq> 0 then hex_digits (val div 16) (kHexChars ! (val mod 16) # buf)
      else kHexChars ! (val mod 16) # buf)"

definition printHex :: "64 word \<Rightarrow> effect" where
  "printHex val = Print (CHR ''0'' # CHR ''x'' # hex_digits (unat val) [])"

definition flush :: "'u process \<Rightarrow> 'u process" where
  "flush s = emit [Flush, Fsync] s"

definition newline :: string where
  "newline = [CHR 0x0A]"

definition dumpTimeInfo :: "os \<Rightarrow> 'u process \<Rightarrow> 'u process" where
  "dumpTimeInfo sys s =
     flush (emit [Print ''*** Aborted at '', printDec (time_now sys),
                  Print '' (Unix time, try 'date -d @'', printDec (time_now sys),
                  Print (''') ***'' @ newline)] s)"

text \<open>
  The reason tables, by the Linux values of the \<open>si_code\<close> constants:
  \<open>ILL_ILLOPC\<close> .. \<open>ILL_BADSTK\<close> are 1 .. 8, \<open>FPE_INTDIV\<close> .. \<open>FPE_FLTSUB\<close> are
  1 .. 8, \<open>SEGV_MAPERR\<close>, \<open>SEGV_ACCERR\<close> are 1, 2, \<open>BUS_ADRALN\<close>, \<open>BUS_ADRERR\<close>,
  \<open>BUS_OBJERR\<close> are 1, 2, 3, \<open>TRAP_BRKPT\<close>, \<open>TRAP_TRACE\<close> are 1, 2,
  \<open>CLD_EXITED\<close> .. \<open>CLD_CONTINUED\<close> are 1 .. 6 and \<open>POLL_IN\<close> .. \<open>POLL_HUP\<close> are
  1 .. 6, each in the order of the source's \<open>switch\<close>. \<open>None\<close> is the null pointer.
\<close>

definition sigill_reason :: "int \<Rightarrow> string option" where
  "sigill_reason code =
     map_of [(1, ''illegal opcode''), (2, ''illegal operand''),
             (3, ''illegal addressing mode''), (4, ''illegal trap''),
             (5, ''privileged opcode''), (6, ''privileged register''),
             (7, ''coprocessor error''), (8, ''internal stack error'')] code"

definition sigfpe_reason :: "int \<Rightarrow> string option" where
  "sigfpe_reason code =
     map_of [(1, ''integer divide by zero''), (2, ''integer overflow''),
             (3, ''floating-point divide by zero''), (4, ''floating-point overflow''),
             (5, ''floating-point underflow''), (6, ''floating-point inexact result''),
             (7, ''floating-point invalid operation''), (8, ''subscript out of range'')] code"

definition sigsegv_reason :: "int \<Rightarrow> string option" where
  "sigsegv_reason code =
     map_of [(1, ''address not mapped to object''),
             (2, ''invalid permissions for mapped object'')] code"

definition sigbus_reason :: "int \<Rightarrow> string option" where
  "sigbus_reason code =
     map_of [(1, ''invalid address alignment''), (2, ''nonexistent physical address''),
             (3, ''object-specific hardware error'')] code"

definition sigtrap_reason :: "int \<Rightarrow> string option" where
  "sigtrap_reason code =
     map_of [(1, ''process breakpoint''), (2, ''process trace trap'')] code"

definition sigchld_reason :: "int \<Rightarrow> string option" where
  "sigchld_reason code =
     map_of [(1, ''child has exited''), (2, ''child was killed''),
             (3, ''child terminated abnormally''), (4, ''traced child has trapped''),
             (5, ''child has stopped''), (6, ''stopped child has continued'')] code"

definition sigio_reason :: "int \<Rightarrow> string option" where
  "sigio_reason code =
     map_of [(1, ''data input available''), (2, ''output buffers available''),
             (3, ''input message available''), (4, ''I/O error''),
             (5, ''high priority input available''), (6, ''device disconnected'')] code"

definition signal_reason :: "int \<Rightarrow> int \<Rightarrow> string option" where
  "signal_reason signum code =
     (if signum = SIGILL then sigill_reason code
      else if signum = SIGFPE then sigfpe_reason code
      else if signum = SIGSEGV then sigsegv_reason code
      else if signum = SIGBUS then sigbus_reason code
      else if signum = SIGTRAP then sigtrap_reason code
      else if signum = SIGCHLD then sigchld_reason code
      else if signum = SIGIO then sigio_reason code
      else None)"

text \<open>
  The loop \<open>for (auto p = kFatalSignals; p->name; ++p) if (p->number == signum)\<close>, which
  \<open>dumpSignalInfo\<close> and \<open>callPreviousSignalHandler\<close> share: the first entry with the
  number, if any.
\<close>

definition lookupFatalSignal :: "FatalSignal list \<Rightarrow> int \<Rightarrow> FatalSignal option" where
  "lookupFatalSignal table signum = find (\<lambda>p. number p = signum) table"

definition dumpSignalInfo :: "os \<Rightarrow> int \<Rightarrow> siginfo_t \<Rightarrow> 'u process \<Rightarrow> 'u process" where
  "dumpSignalInfo sys signum siginfo s =
     flush (emit
       ([Print ''*** Signal '', printDec signum]
        @ (case lookupFatalSignal (kFatalSignals s) signum of
             None \<Rightarrow> []
           | Some p \<Rightarrow> [Print '' ('', Print (name p), Print '')''])
        @ [Print '' ('', printHex (si_addr siginfo),
           Print '') received by PID '', printDec (getpid sys),
           Print '' (pthread TID '', printHex (pthread_self sys),
           Print '') (linux TID '', printDec (gettid sys)]
        @ (if si_code siginfo \<noteq> SI_KERNEL
           then [Print '') (maybe from PID '', printDec (si_pid siginfo),
                 Print '', UID '', printDec (int (si_uid siginfo))]
           else [])
        @ (case signal_reason signum (si_code siginfo) of
             None \<Rightarrow> []
           | Some reason \<Rightarrow> [Print '') (code: '', Print reason])
        @ [Print (''), stack trace: ***'' @ newline)]) s)"

text \<open>
  \<open>dumpStackTrace\<close>: the frames come from \<open>getStackTraceSafe\<close>; they go through the
  symbolizer only when \<open>symbolize\<close> is set, and are printed as bare addresses otherwise.
\<close>

definition dumpStackTrace :: "os \<Rightarrow> bool \<Rightarrow> 'u process \<Rightarrow> 'u process" where
  "dumpStackTrace sys symbolize s =
     flush (emit
       (case getStackTraceSafe sys of
          None \<Rightarrow> [Print (''(error retrieving stack trace)'' @ newline)]
        | Some addresses \<Rightarrow>
            if symbolize then [Symbolize addresses, Println addresses 2]
            else Print (''(safe mode, symbolizer not available)'' @ newline)
                 # concat (map (\<lambda>a. [PrintAddress a, Print newline]) addresses)) s)"

definition recursion_warning :: string where
  "recursion_warning =
     ''Entered fatal signal handler recursively. We're in trouble.'' @ newline"

definition runCallbacks :: "'u process \<Rightarrow> 'u process" where
  "runCallbacks s = s\<lparr>user := run (gFatalSignalCallbackRegistry s) (user s)\<rparr>"

text \<open>
  \<open>innerSignalHandler\<close>. Each turn of the loop starts from
  \<open>prevSignalThread = kInvalidThreadId\<close>, so the compare-and-exchange succeeds exactly
  when the slot is \<open>kInvalidThreadId\<close>, and otherwise reads the slot. When another thread
  holds the slot the handler sleeps 100 ms and tries again: in a run of this thread alone
  nothing changes the slot, the loop does not end, and the result is \<open>None\<close>.
\<close>

partial_function (option) innerSignalHandler ::
  "os \<Rightarrow> int \<Rightarrow> siginfo_t \<Rightarrow> 'u process \<Rightarrow> 'u process option" where
  "innerSignalHandler sys signum info s =
     (if gSignalThread s = kInvalidThreadId then
        Some (runCallbacks
               (dumpStackTrace sys True
                 (dumpSignalInfo sys signum info
                   (dumpTimeInfo sys
                     (emit [Store_gSignalThread (pthread_self sys)]
                       (s\<lparr>gSignalThread := pthread_self sys\<rparr>))))))
      else if gSignalThread s = pthread_self sys then
        (if \<not> gInRecursiveSignalHandler s then
           Some (dumpStackTrace sys False
                  (emit [Print recursion_warning] (s\<lparr>gInRecursiveSignalHandler := True\<rparr>)))
         else Some s)
      else innerSignalHandler sys signum info s)"

declare innerSignalHandler.simps [code]

text \<open>
  \<open>sigaction(signum, act, nullptr)\<close> whose result the caller ignores, and \<open>raise\<close>. The
  handler runs with its own signal blocked, so \<open>raise\<close> leaves the signal pending and
  returns.
\<close>

definition sigaction_set :: "int \<Rightarrow> sigaction \<Rightarrow> 'u process \<Rightarrow> 'u process" where
  "sigaction_set signum act s =
     emit [Sigaction signum act] (s\<lparr>disposition := (disposition s)(signum := act)\<rparr>)"

definition raise_signal :: "int \<Rightarrow> 'u process \<Rightarrow> 'u process" where
  "raise_signal signum s = emit [Raise signum] s"

definition callPreviousSignalHandler :: "int \<Rightarrow> 'u process \<Rightarrow> 'u process" where
  "callPreviousSignalHandler signum s =
     (case lookupFatalSignal (kFatalSignals s) signum of
        Some p \<Rightarrow> raise_signal signum (sigaction_set signum (oldAction p) s)
      | None \<Rightarrow> raise_signal signum (sigaction_set signum sigaction_zero s))"

text \<open>\<open>signalHandler\<close>; the \<open>SCOPE_EXIT\<close> flush runs last, when the function returns.\<close>

definition signalHandler ::
  "os \<Rightarrow> int \<Rightarrow> siginfo_t \<Rightarrow> 'u process \<Rightarrow> 'u process option" where
  "signalHandler sys signum info s =
     (case innerSignalHandler sys signum info s of
        None \<Rightarrow> None
      | Some s1 \<Rightarrow>
          Some (flush
                 (callPreviousSignalHandler signum
                   (emit [Store_gSignalThread kInvalidThreadId]
                     (s1\<lparr>gSignalThread := kInvalidThreadId\<rparr>)))))"

text \<open>
  \<open>installFatalSignalHandler\<close>. The kernel refuses \<open>sigaction\<close> for a number outside
  1 .. 64 and for \<open>SIGKILL\<close> (9) and \<open>SIGSTOP\<close> (19); \<open>CHECK_ERR\<close> then ends the process.
\<close>

definition catchable :: "int \<Rightarrow> bool" where
  "catchable signum = (1 \<le> signum \<and> signum \<le> 64 \<and> signum \<noteq> 9 \<and> signum \<noteq> 19)"

definition signalHandler_action :: sigaction where
  "signalHandler_action =
     \<lparr>sa_handler = SignalHandlerFn, sa_mask = [], sa_flags = [SA_SIGINFO, SA_ONSTACK]\<rparr>"

fun install_loop ::
  "FatalSignal list \<Rightarrow> 'u process \<Rightarrow> fatal + (FatalSignal list \<times> 'u process)" where
  "install_loop [] s = Inr ([], s)"
| "install_loop (p # ps) s =
     (if \<not> catchable (number p) then Inl (CheckFailed ''sigaction(p->number, &sa, &p->oldAction)'')
      else case install_loop ps (sigaction_set (number p) signalHandler_action s) of
             Inl e \<Rightarrow> Inl e
           | Inr (ps', s') \<Rightarrow> Inr (p\<lparr>oldAction := disposition s (number p)\<rparr> # ps', s'))"

definition installFatalSignalHandler :: "'u process \<Rightarrow> fatal + 'u process" where
  "installFatalSignalHandler s =
     (if gAlreadyInstalled s then Inr s
      else case install_loop (kFatalSignals s) (s\<lparr>gAlreadyInstalled := True\<rparr>) of
             Inl e \<Rightarrow> Inl e
           | Inr (table, s') \<Rightarrow> Inr (s'\<lparr>kFatalSignals := table\<rparr>))"

text \<open>
  What a thread does in the handler, in two steps that other handler activity can come
  between: \<open>Enter\<close> is its call of \<open>innerSignalHandler\<close> (on a fresh fault, or on a
  fault inside the handler), \<open>Leave\<close> is the rest of \<open>signalHandler\<close>.
\<close>

datatype handler_event = Enter os int siginfo_t | Leave int

definition signalHandler_rest :: "int \<Rightarrow> 'u process \<Rightarrow> 'u process" where
  "signalHandler_rest signum s1 =
     flush (callPreviousSignalHandler signum
       (emit [Store_gSignalThread kInvalidThreadId] (s1\<lparr>gSignalThread := kInvalidThreadId\<rparr>)))"

fun handler_step :: "handler_event \<Rightarrow> 'u process \<Rightarrow> 'u process option" where
  "handler_step (Enter sys signum info) s = innerSignalHandler sys signum info s"
| "handler_step (Leave signum) s = Some (signalHandler_rest signum s)"

definition example_os :: os where
  "example_os =
     \<lparr>pthread_self = 7, time_now = 1000, getpid = 42, gettid = 43,
      getStackTraceSafe = Some [0x400000, 0x400010]\<rparr>"

definition example_info :: siginfo_t where
  "example_info = \<lparr>si_addr = 0, si_code = 1, si_pid = 0, si_uid = 0\<rparr>"

definition example_process :: "string list process" where
  "example_process = process_initial (\<lambda>signum. sigaction_zero) []"

fun handler_history :: "handler_event list \<Rightarrow> 'u process \<Rightarrow> 'u process option" where
  "handler_history [] s = Some s"
| "handler_history (e # es) s =
     (case handler_step e s of None \<Rightarrow> None | Some s' \<Rightarrow> handler_history es s')"

text \<open>
  The states a history of handler activity goes through, the first one included; the list
  ends where the handler does not return.
\<close>

fun handler_states :: "handler_event list \<Rightarrow> 'u process \<Rightarrow> 'u process list" where
  "handler_states [] s = [s]"
| "handler_states (e # es) s =
     s # (case handler_step e s of None \<Rightarrow> [] | Some s' \<Rightarrow> handler_states es s')"

section \<open>GuardPageAllocator.cpp: the stack cache\<close>

text \<open>
  \<open>size_t\<close> and the addresses are 64-bit unsigned values: sums, differences and products
  wrap around, as the C++ does on them. The platform fixes what \<open>pagesize()\<close> returns and
  whether \<open>assert\<close> is compiled in (NDEBUG not defined). \<open>nullptr\<close> is address 0.
  The parameter \<open>size\<close> of the source is written \<open>size'\<close>.
\<close>

type_synonym size_t = "64 word"

record platform =
  pagesize :: size_t
  assertions :: bool

definition nullptr :: addr where
  "nullptr = 0"

definition kNumGuarded :: size_t where
  "kNumGuarded = 100"

definition kMaxInUse :: size_t where
  "kMaxInUse = 100"

text \<open>
  What the memory system answers: the address \<open>mmap\<close> returns for a length
  (\<open>(void*)(-1)\<close>, all bits set, when it fails), and the results of \<open>mprotect\<close> and
  \<open>munmap\<close> (0 for success).
\<close>

record vm =
  mmap :: "size_t \<Rightarrow> addr"
  mprotect :: "addr \<Rightarrow> size_t \<Rightarrow> int"
  munmap :: "addr \<Rightarrow> size_t \<Rightarrow> int"

definition MAP_FAILED :: addr where
  "MAP_FAILED = - 1"

record StackCache =
  storage' :: addr
  allocSize' :: size_t
  freeList' :: "addr list"

definition allocSize :: "platform \<Rightarrow> size_t \<Rightarrow> size_t" where
  "allocSize pf size' = pagesize pf * ((size' + pagesize pf - 1) div pagesize pf + 1)"

text \<open>
  The constructor's loop over \<open>i = 0 .. kNumGuarded - 1\<close>: the slot's base goes on the
  free list, then its first page is protected.
\<close>

fun protect_slots ::
  "platform \<Rightarrow> vm \<Rightarrow> addr \<Rightarrow> size_t \<Rightarrow> size_t list \<Rightarrow> addr list \<Rightarrow> fatal + addr list" where
  "protect_slots pf sys storage as [] freeList = Inr freeList"
| "protect_slots pf sys storage as (i # is) freeList =
     (if mprotect sys (storage + as * i) (pagesize pf) \<noteq> 0
      then Inl (PCheckFailed ''0 == ::mprotect(allocBegin, pagesize(), PROT_NONE)'')
      else protect_slots pf sys storage as is (freeList @ [storage + as * i]))"

definition StackCache_new :: "platform \<Rightarrow> vm \<Rightarrow> size_t \<Rightarrow> fatal + StackCache" where
  "StackCache_new pf sys stackSize =
     (let as = allocSize pf stackSize;
          p = mmap sys (as * kNumGuarded)
      in if p = MAP_FAILED then Inl (PCheckFailed ''p != (void*)(-1)'')
         else case protect_slots pf sys p as (map of_nat [0..<unat kNumGuarded]) [] of
                Inl e \<Rightarrow> Inl e
              | Inr freeList \<Rightarrow> Inr \<lparr>storage' = p, allocSize' = as, freeList' = freeList\<rparr>)"

text \<open>\<open>freeList_.back()\<close> is the last element and \<open>pop_back()\<close> removes it.\<close>

definition borrow :: "platform \<Rightarrow> StackCache \<Rightarrow> size_t \<Rightarrow> fatal + (addr \<times> StackCache)" where
  "borrow pf c size' =
     (if assertions pf \<and> storage' c = nullptr then Inl (AssertionFailed ''storage_'')
      else if allocSize pf size' \<noteq> allocSize' c \<or> freeList' c = [] then Inr (nullptr, c)
      else
        let p = last (freeList' c);
            limit = p + allocSize' c - size'
        in if assertions pf \<and> \<not> (limit \<ge> p + pagesize pf)
           then Inl (AssertionFailed ''limit >= p + pagesize()'')
           else Inr (limit, c\<lparr>freeList' := butlast (freeList' c)\<rparr>))"

definition giveBack ::
  "platform \<Rightarrow> StackCache \<Rightarrow> addr \<Rightarrow> size_t \<Rightarrow> fatal + (bool \<times> StackCache)" where
  "giveBack pf c limit size' =
     (if assertions pf \<and> storage' c = nullptr then Inl (AssertionFailed ''storage_'')
      else
        let as = allocSize pf size';
            p = limit + size' - as
        in if p < storage' c \<or> p \<ge> storage' c + allocSize' c * kNumGuarded
           then Inr (False, c)
           else if assertions pf \<and> as \<noteq> allocSize' c
           then Inl (AssertionFailed ''as == allocSize_'')
           else if assertions pf \<and> (p - storage' c) mod allocSize' c \<noteq> 0
           then Inl (AssertionFailed ''(p - storage_) % allocSize_ == 0'')
           else Inr (True, c\<lparr>freeList' := freeList' c @ [p]\<rparr>))"

definition StackCache_delete :: "platform \<Rightarrow> vm \<Rightarrow> StackCache \<Rightarrow> fatal + unit" where
  "StackCache_delete pf sys c =
     (if assertions pf \<and> storage' c = nullptr then Inl (AssertionFailed ''storage_'')
      else if munmap sys (storage' c) (allocSize' c * kNumGuarded) \<noteq> 0
      then Inl (PCheckFailed ''0 == ::munmap(storage_, allocSize_ * kNumGuarded)'')
      else Inr ())"

section \<open>GuardPageAllocator.cpp: the cache manager and the allocator\<close>

record CacheManager =
  inUse' :: size_t

definition CacheManager_new :: CacheManager where
  "CacheManager_new = \<lparr>inUse' = 0\<rparr>"

text \<open>A \<open>StackCacheEntry\<close> owns its \<open>StackCache\<close>; \<open>cache()\<close> is the selector.\<close>

datatype StackCacheEntry = StackCacheEntry (cache: StackCache)

definition getStackCache ::
  "platform \<Rightarrow> vm \<Rightarrow> CacheManager \<Rightarrow> size_t \<Rightarrow> fatal + (StackCacheEntry option \<times> CacheManager)" where
  "getStackCache pf sys m stackSize =
     (if inUse' m < kMaxInUse then
        case StackCache_new pf sys stackSize of
          Inl e \<Rightarrow> Inl e
        | Inr c \<Rightarrow> Inr (Some (StackCacheEntry c), m\<lparr>inUse' := inUse' m + 1\<rparr>)
      else Inr (None, m))"

text \<open>
  \<open>CacheManager::giveBack\<close> takes the pool by value: the counter goes down, then the
  parameter goes out of scope and the pool's destructor unmaps the region.
\<close>

definition CacheManager_giveBack ::
  "platform \<Rightarrow> vm \<Rightarrow> CacheManager \<Rightarrow> StackCache \<Rightarrow> fatal + CacheManager" where
  "CacheManager_giveBack pf sys m stackCache =
     (if assertions pf \<and> \<not> (inUse' m > 0) then Inl (AssertionFailed ''inUse_ > 0'')
      else case StackCache_delete pf sys stackCache of
             Inl e \<Rightarrow> Inl e
           | Inr _ \<Rightarrow> Inr (m\<lparr>inUse' := inUse' m - 1\<rparr>))"

definition StackCacheEntry_delete ::
  "platform \<Rightarrow> vm \<Rightarrow> CacheManager \<Rightarrow> StackCacheEntry \<Rightarrow> fatal + CacheManager" where
  "StackCacheEntry_delete pf sys m e = CacheManager_giveBack pf sys m (cache e)"

text \<open>
  Modelled from the spec: GuardPageAllocator.h is not among the sources. The spec gives the
  allocator "at most one StackCacheEntry plus a fallback allocator" and a "guard pages
  enabled" flag "fixed at construction"; the fallback is "a non-guarded fallback
  allocator", taken here as the address it answers for a size.
\<close>

record GuardPageAllocator =
  useGuardPages' :: bool
  stackCache' :: "StackCacheEntry option"

definition GuardPageAllocator_new :: "bool \<Rightarrow> GuardPageAllocator" where
  "GuardPageAllocator_new useGuardPages = \<lparr>useGuardPages' = useGuardPages, stackCache' = None\<rparr>"

text \<open>The calls an allocator makes on its collaborators, in the order it makes them.\<close>

datatype call =
    Call_getStackCache size_t
  | Call_borrow size_t
  | Call_giveBack addr size_t
  | Call_fallback_allocate size_t
  | Call_fallback_deallocate addr size_t

record allocated =
  result :: addr
  allocator :: GuardPageAllocator
  manager :: CacheManager
  calls :: "call list"

definition allocate ::
  "platform \<Rightarrow> vm \<Rightarrow> (size_t \<Rightarrow> addr) \<Rightarrow> CacheManager \<Rightarrow> GuardPageAllocator \<Rightarrow> size_t
   \<Rightarrow> fatal + allocated" where
  "allocate pf sys fallback m a size' =
     (case (if useGuardPages' a \<and> stackCache' a = None
            then (case getStackCache pf sys m size' of
                    Inl e \<Rightarrow> Inl e
                  | Inr (h, m') \<Rightarrow> Inr (a\<lparr>stackCache' := h\<rparr>, m', [Call_getStackCache size']))
            else Inr (a, m, [])) of
        Inl e \<Rightarrow> Inl e
      | Inr (a1, m1, cs) \<Rightarrow>
          (case stackCache' a1 of
             None \<Rightarrow>
               Inr \<lparr>result = fallback size', allocator = a1, manager = m1,
                    calls = cs @ [Call_fallback_allocate size']\<rparr>
           | Some e \<Rightarrow>
               (case borrow pf (cache e) size' of
                  Inl err \<Rightarrow> Inl err
                | Inr (p, c') \<Rightarrow>
                    if p \<noteq> nullptr
                    then Inr \<lparr>result = p, allocator = a1\<lparr>stackCache' := Some (StackCacheEntry c')\<rparr>,
                              manager = m1, calls = cs @ [Call_borrow size']\<rparr>
                    else Inr \<lparr>result = fallback size',
                              allocator = a1\<lparr>stackCache' := Some (StackCacheEntry c')\<rparr>,
                              manager = m1,
                              calls = cs @ [Call_borrow size', Call_fallback_allocate size']\<rparr>)))"

definition deallocate ::
  "platform \<Rightarrow> GuardPageAllocator \<Rightarrow> addr \<Rightarrow> size_t \<Rightarrow> fatal + (GuardPageAllocator \<times> call list)" where
  "deallocate pf a limit size' =
     (case stackCache' a of
        None \<Rightarrow> Inr (a, [Call_fallback_deallocate limit size'])
      | Some e \<Rightarrow>
          (case giveBack pf (cache e) limit size' of
             Inl err \<Rightarrow> Inl err
           | Inr (mine, c') \<Rightarrow>
               if mine
               then Inr (a\<lparr>stackCache' := Some (StackCacheEntry c')\<rparr>, [Call_giveBack limit size'])
               else Inr (a\<lparr>stackCache' := Some (StackCacheEntry c')\<rparr>,
                         [Call_giveBack limit size', Call_fallback_deallocate limit size'])))"

section \<open>Runs of pool and manager operations\<close>

text \<open>
  A size fits when its allocation unit is computed without wrap-around: the quotient is
  the number of whole pages for the size, and the product is below \<open>2^64\<close>.
\<close>

definition fits :: "platform \<Rightarrow> size_t \<Rightarrow> bool" where
  "fits pf size' \<longleftrightarrow>
     unat (pagesize pf)
       * ((unat size' + unat (pagesize pf) - 1) div unat (pagesize pf) + 1) < 2 ^ 64"

text \<open>
  The tests \<open>giveBack\<close> makes on a slot base: inside the backing mapping, and on a slot
  boundary.
\<close>

definition in_mapping :: "StackCache \<Rightarrow> addr \<Rightarrow> bool" where
  "in_mapping c p \<longleftrightarrow> \<not> (p < storage' c \<or> p \<ge> storage' c + allocSize' c * kNumGuarded)"

definition slot_aligned :: "StackCache \<Rightarrow> addr \<Rightarrow> bool" where
  "slot_aligned c p \<longleftrightarrow> (p - storage' c) mod allocSize' c = 0"

text \<open>
  A pool as its constructor leaves it and the operations keep it: the mapping is not at
  address 0 and ends below \<open>2^64\<close>, and the free list holds slot bases of the mapping.
\<close>

definition StackCache_inv :: "platform \<Rightarrow> StackCache \<Rightarrow> bool" where
  "StackCache_inv pf c \<longleftrightarrow>
     pagesize pf \<noteq> 0 \<and> storage' c \<noteq> nullptr \<and>
     unat (storage' c) + unat (allocSize' c) * unat kNumGuarded < 2 ^ 64 \<and>
     list_all (\<lambda>p. in_mapping c p \<and> slot_aligned c p) (freeList' c)"

text \<open>
  A pool together with the regions its clients hold: each is the pointer \<open>borrow\<close>
  returned and the size it was asked for, until that pair is given back.
\<close>

datatype cache_op = Borrow size_t | GiveBack addr size_t

datatype cache_result = Borrowed addr | GaveBack bool

record tracked =
  pool :: StackCache
  borrowed :: "(addr \<times> size_t) list"

fun cache_step :: "platform \<Rightarrow> cache_op \<Rightarrow> tracked \<Rightarrow> fatal + (cache_result \<times> tracked)" where
  "cache_step pf (Borrow size') t =
     (case borrow pf (pool t) size' of
        Inl e \<Rightarrow> Inl e
      | Inr (p, c') \<Rightarrow>
          Inr (Borrowed p,
               \<lparr>pool = c',
                borrowed = (if p \<noteq> nullptr then (p, size') # borrowed t else borrowed t)\<rparr>))"
| "cache_step pf (GiveBack limit size') t =
     (case giveBack pf (pool t) limit size' of
        Inl e \<Rightarrow> Inl e
      | Inr (mine, c') \<Rightarrow>
          Inr (GaveBack mine,
               \<lparr>pool = c',
                borrowed = (if mine then remove1 (limit, size') (borrowed t) else borrowed t)\<rparr>))"

fun cache_run ::
  "platform \<Rightarrow> cache_op list \<Rightarrow> tracked \<Rightarrow> fatal + (cache_result list \<times> tracked)" where
  "cache_run pf [] t = Inr ([], t)"
| "cache_run pf (x # xs) t =
     (case cache_step pf x t of
        Inl e \<Rightarrow> Inl e
      | Inr (r, t') \<Rightarrow>
          (case cache_run pf xs t' of Inl e \<Rightarrow> Inl e | Inr (rs, t'') \<Rightarrow> Inr (r # rs, t'')))"

text \<open>
  The client's side of the contract: it borrows sizes that fit, and gives back only what
  it holds, with the size it borrowed it for.
\<close>

fun op_conforms :: "platform \<Rightarrow> tracked \<Rightarrow> cache_op \<Rightarrow> bool" where
  "op_conforms pf t (Borrow size') = fits pf size'"
| "op_conforms pf t (GiveBack limit size') = ((limit, size') \<in> set (borrowed t))"

fun conforming :: "platform \<Rightarrow> cache_op list \<Rightarrow> tracked \<Rightarrow> bool" where
  "conforming pf [] t = True"
| "conforming pf (x # xs) t =
     (op_conforms pf t x \<and>
      (case cache_step pf x t of Inl e \<Rightarrow> True | Inr (r, t') \<Rightarrow> conforming pf xs t'))"

definition tracked_inv :: "platform \<Rightarrow> tracked \<Rightarrow> bool" where
  "tracked_inv pf t \<longleftrightarrow>
     StackCache_inv pf (pool t) \<and>
     length (freeList' (pool t)) + length (borrowed t) = unat kNumGuarded \<and>
     list_all (\<lambda>(limit, size').
                 fits pf size' \<and> allocSize pf size' = allocSize' (pool t) \<and>
                 in_mapping (pool t) (limit + size' - allocSize pf size') \<and>
                 slot_aligned (pool t) (limit + size' - allocSize pf size'))
       (borrowed t)"

text \<open>
  The manager with the handles that are alive. A handle is released by destroying it, so
  only a live handle can be released; \<open>Release\<close> of an index that names none does nothing.
\<close>

datatype manager_op = Get vm size_t | Release vm nat

record pools =
  mgr :: CacheManager
  live :: "StackCacheEntry list"

fun manager_step :: "platform \<Rightarrow> manager_op \<Rightarrow> pools \<Rightarrow> fatal + pools" where
  "manager_step pf (Get sys stackSize) w =
     (case getStackCache pf sys (mgr w) stackSize of
        Inl e \<Rightarrow> Inl e
      | Inr (None, m') \<Rightarrow> Inr \<lparr>mgr = m', live = live w\<rparr>
      | Inr (Some h, m') \<Rightarrow> Inr \<lparr>mgr = m', live = live w @ [h]\<rparr>)"
| "manager_step pf (Release sys i) w =
     (if i < length (live w) then
        case StackCacheEntry_delete pf sys (mgr w) (live w ! i) of
          Inl e \<Rightarrow> Inl e
        | Inr m' \<Rightarrow> Inr \<lparr>mgr = m', live = take i (live w) @ drop (Suc i) (live w)\<rparr>
      else Inr w)"

fun manager_run :: "platform \<Rightarrow> manager_op list \<Rightarrow> pools \<Rightarrow> fatal + pools" where
  "manager_run pf [] w = Inr w"
| "manager_run pf (x # xs) w =
     (case manager_step pf x w of Inl e \<Rightarrow> Inl e | Inr w' \<Rightarrow> manager_run pf xs w')"

definition pools_initial :: pools where
  "pools_initial = \<lparr>mgr = CacheManager_new, live = []\<rparr>"

text \<open>What every run from the fresh manager keeps: the counter counts the live handles.\<close>

definition pools_inv :: "pools \<Rightarrow> bool" where
  "pools_inv w \<longleftrightarrow> unat (inUse' (mgr w)) = length (live w) \<and> inUse' (mgr w) \<le> kMaxInUse"

text \<open>Concrete inputs: 4 KiB pages, and a memory system that maps at \<open>0x10000000\<close>.\<close>

definition example_platform :: platform where
  "example_platform = \<lparr>pagesize = 4096, assertions = True\<rparr>"


definition example_vm :: vm where
  "example_vm = \<lparr>mmap = (\<lambda>len. 0x10000000), mprotect = (\<lambda>p len. 0), munmap = (\<lambda>p len. 0)\<rparr>"

definition example_cache :: StackCache where
  "example_cache =
     \<lparr>storage' = 0x10000000, allocSize' = 12288,
      freeList' = map (\<lambda>i. 0x10000000 + 12288 * of_nat i) [0..<100]\<rparr>"

text \<open>
  The life of one allocator: its \<open>allocate\<close> calls, each meeting the manager as the other
  allocators of the process have left it, and its \<open>deallocate\<close> calls.
\<close>

datatype alloc_op = Allocate vm CacheManager size_t | Deallocate addr size_t

fun alloc_step ::
  "platform \<Rightarrow> (size_t \<Rightarrow> addr) \<Rightarrow> alloc_op \<Rightarrow> GuardPageAllocator
   \<Rightarrow> fatal + (GuardPageAllocator \<times> call list)" where
  "alloc_step pf fallback (Allocate sys m size') a =
     (case allocate pf sys fallback m a size' of
        Inl e \<Rightarrow> Inl e
      | Inr out \<Rightarrow> Inr (allocator out, calls out))"
| "alloc_step pf fallback (Deallocate limit size') a = deallocate pf a limit size'"

fun alloc_run ::
  "platform \<Rightarrow> (size_t \<Rightarrow> addr) \<Rightarrow> alloc_op list \<Rightarrow> GuardPageAllocator
   \<Rightarrow> fatal + (GuardPageAllocator \<times> call list)" where
  "alloc_run pf fallback [] a = Inr (a, [])"
| "alloc_run pf fallback (x # xs) a =
     (case alloc_step pf fallback x a of
        Inl e \<Rightarrow> Inl e
      | Inr (a', cs) \<Rightarrow>
          (case alloc_run pf fallback xs a' of
             Inl e \<Rightarrow> Inl e
           | Inr (a'', cs') \<Rightarrow> Inr (a'', cs @ cs')))"

definition example_fallback :: "size_t \<Rightarrow> addr" where
  "example_fallback size' = 0x7F0000000000"

definition example_holder :: GuardPageAllocator where
  "example_holder = \<lparr>useGuardPages' = True, stackCache' = Some (StackCacheEntry example_cache)\<rparr>"

fun is_getStackCache :: "call \<Rightarrow> bool" where
  "is_getStackCache (Call_getStackCache size') = True"
| "is_getStackCache c = False"

section \<open>Properties of the registry\<close>

lemmas signal_numbers =
  SIGILL_def SIGTRAP_def SIGABRT_def SIGBUS_def SIGFPE_def SIGSEGV_def SIGTERM_def
  SIGCHLD_def SIGIO_def

lemma registration_step_frozen:
  "installed' r \<Longrightarrow> \<exists>msg. registration_step c r = Inl (CheckFailed msg)"
  by (cases c) (simp_all add: addFatalSignalCallback_def add_def
      installFatalSignalCallbacks_def markInstalled_def)

lemma registrations_adds:
  "\<not> installed' r \<Longrightarrow>
   registrations (map AddFatalSignalCallback cbs) r = Inr (r\<lparr>handlers' := handlers' r @ cbs\<rparr>)"
proof (induction cbs arbitrary: r)
  case Nil
  then show ?case by simp
next
  case (Cons cb cbs)
  then show ?case by (simp add: addFatalSignalCallback_def add_def)
qed

text \<open>
  C9. Once \<open>installFatalSignalCallbacks\<close> has frozen the registry, \<open>addFatalSignalCallback\<close>
  fails its \<open>CHECK\<close> with the diagnostic of \<open>add\<close>, and a second
  \<open>installFatalSignalCallbacks\<close> fails its \<open>CHECK\<close> with the diagnostic of
  \<open>markInstalled\<close>; the freeze itself succeeds on an unfrozen registry and leaves it frozen;
  before the freeze \<open>addFatalSignalCallback\<close> appends the callback at the end of the
  sequence.
\<close>

theorem C9_registry_frozen_after_install:
  "(\<not> installed' r \<longrightarrow>
      addFatalSignalCallback cb r = Inr (r\<lparr>handlers' := handlers' r @ [cb]\<rparr>) \<and>
      installFatalSignalCallbacks r = Inr (r\<lparr>installed' := True\<rparr>)) \<and>
   (installFatalSignalCallbacks r0 = Inr r \<longrightarrow>
      installed' r \<and>
      addFatalSignalCallback cb r = Inl (CheckFailed add_message) \<and>
      installFatalSignalCallbacks r = Inl (CheckFailed markInstalled_message)) \<and>
   (installed' r \<longrightarrow>
      addFatalSignalCallback cb r = Inl (CheckFailed add_message) \<and>
      installFatalSignalCallbacks r = Inl (CheckFailed markInstalled_message))"
  by (auto simp: addFatalSignalCallback_def add_def installFatalSignalCallbacks_def
      markInstalled_def split: if_splits)

theorem C9_registry_frozen_after_install_witness:
  "addFatalSignalCallback (\<lambda>u. ''a'' # u) FatalSignalCallbackRegistry_new
     = Inr \<lparr>installed' = False, handlers' = [\<lambda>u. ''a'' # u]\<rparr> \<and>
   installFatalSignalCallbacks (FatalSignalCallbackRegistry_new :: string list FatalSignalCallbackRegistry)
     = Inr \<lparr>installed' = True, handlers' = []\<rparr> \<and>
   addFatalSignalCallback (\<lambda>u. ''a'' # u) \<lparr>installed' = True, handlers' = []\<rparr>
     = Inl (CheckFailed add_message) \<and>
   installFatalSignalCallbacks \<lparr>installed' = True, handlers' = ([] :: (string list \<Rightarrow> string list) list)\<rparr>
     = Inl (CheckFailed markInstalled_message)"
proof -
  let ?new = "FatalSignalCallbackRegistry_new :: string list FatalSignalCallbackRegistry"
  let ?frozen = "\<lparr>installed' = True, handlers' = ([] :: (string list \<Rightarrow> string list) list)\<rparr>"
  have fresh: "\<not> installed' ?new"
    by (simp add: FatalSignalCallbackRegistry_new_def)
  have step: "installFatalSignalCallbacks ?new = Inr ?frozen"
    by (simp add: installFatalSignalCallbacks_def markInstalled_def
        FatalSignalCallbackRegistry_new_def)
  show ?thesis
    using C9_registry_frozen_after_install [of ?new "\<lambda>u. ''a'' # u" ?new] fresh
      C9_registry_frozen_after_install [of ?frozen "\<lambda>u. ''a'' # u" ?new] step
    by (simp add: FatalSignalCallbackRegistry_new_def)
qed

section \<open>Properties of the signal handler\<close>

lemma emit_fields [simp]:
  "gFatalSignalCallbackRegistry (emit es s) = gFatalSignalCallbackRegistry s"
  "kFatalSignals (emit es s) = kFatalSignals s"
  "gSignalThread (emit es s) = gSignalThread s"
  "gInRecursiveSignalHandler (emit es s) = gInRecursiveSignalHandler s"
  "gAlreadyInstalled (emit es s) = gAlreadyInstalled s"
  "disposition (emit es s) = disposition s"
  "effects (emit es s) = effects s @ es"
  "user (emit es s) = user s"
  by (simp_all add: emit_def)

lemma emit_emit [simp]: "emit es' (emit es s) = emit (es @ es') s"
  by (simp add: emit_def)

lemma flush_emit: "flush s = emit [Flush, Fsync] s"
  by (simp add: flush_def)

lemma dumpTimeInfo_emit: "\<exists>es. dumpTimeInfo sys s = emit es s"
  by (auto simp: dumpTimeInfo_def flush_def)

lemma dumpSignalInfo_emit: "\<exists>es. dumpSignalInfo sys signum info s = emit es s"
  by (auto simp: dumpSignalInfo_def flush_def)

lemma dumpStackTrace_emit: "\<exists>es. dumpStackTrace sys symbolize s = emit es s"
  by (auto simp: dumpStackTrace_def flush_def)

lemma innerSignalHandler_won:
  "gSignalThread s = kInvalidThreadId \<Longrightarrow>
   innerSignalHandler sys signum info s =
     Some (runCallbacks (dumpStackTrace sys True (dumpSignalInfo sys signum info
       (dumpTimeInfo sys (emit [Store_gSignalThread (pthread_self sys)]
          (s\<lparr>gSignalThread := pthread_self sys\<rparr>))))))"
  by (subst innerSignalHandler.simps) simp

lemma innerSignalHandler_recursive:
  "gSignalThread s = pthread_self sys \<Longrightarrow> pthread_self sys \<noteq> kInvalidThreadId \<Longrightarrow>
   innerSignalHandler sys signum info s =
     (if \<not> gInRecursiveSignalHandler s then
        Some (dumpStackTrace sys False
               (emit [Print recursion_warning] (s\<lparr>gInRecursiveSignalHandler := True\<rparr>)))
      else Some s)"
  by (subst innerSignalHandler.simps) simp


lemma innerSignalHandler_Some_slot:
  assumes "innerSignalHandler sys signum info s = Some s'"
  shows "gSignalThread s = kInvalidThreadId \<or> gSignalThread s = pthread_self sys"
  by (rule innerSignalHandler.raw_induct
      [where P = "\<lambda>sys signum info s s'.
         gSignalThread s = kInvalidThreadId \<or> gSignalThread s = pthread_self sys",
       OF _ assms])
    (simp split: if_splits, blast)

lemma innerSignalHandler_spins:
  "gSignalThread s \<noteq> kInvalidThreadId \<Longrightarrow> gSignalThread s \<noteq> pthread_self sys \<Longrightarrow>
   innerSignalHandler sys signum info s = None"
  using innerSignalHandler_Some_slot [of sys signum info s] by (cases "innerSignalHandler sys signum info s") auto


lemma runCallbacks_fields [simp]:
  "gFatalSignalCallbackRegistry (runCallbacks s) = gFatalSignalCallbackRegistry s"
  "kFatalSignals (runCallbacks s) = kFatalSignals s"
  "gSignalThread (runCallbacks s) = gSignalThread s"
  "gInRecursiveSignalHandler (runCallbacks s) = gInRecursiveSignalHandler s"
  "gAlreadyInstalled (runCallbacks s) = gAlreadyInstalled s"
  "disposition (runCallbacks s) = disposition s"
  "effects (runCallbacks s) = effects s"
  "user (runCallbacks s) = run (gFatalSignalCallbackRegistry s) (user s)"
  by (simp_all add: runCallbacks_def)

lemma dump_fields [simp]:
  "gInRecursiveSignalHandler (dumpTimeInfo sys s) = gInRecursiveSignalHandler s"
  "gInRecursiveSignalHandler (dumpSignalInfo sys signum info s) = gInRecursiveSignalHandler s"
  "gInRecursiveSignalHandler (dumpStackTrace sys symbolize s) = gInRecursiveSignalHandler s"
  "kFatalSignals (dumpTimeInfo sys s) = kFatalSignals s"
  "kFatalSignals (dumpSignalInfo sys signum info s) = kFatalSignals s"
  "kFatalSignals (dumpStackTrace sys symbolize s) = kFatalSignals s"
  "disposition (dumpTimeInfo sys s) = disposition s"
  "disposition (dumpSignalInfo sys signum info s) = disposition s"
  "disposition (dumpStackTrace sys symbolize s) = disposition s"
  "user (dumpTimeInfo sys s) = user s"
  "user (dumpSignalInfo sys signum info s) = user s"
  "user (dumpStackTrace sys symbolize s) = user s"
  "gFatalSignalCallbackRegistry (dumpTimeInfo sys s) = gFatalSignalCallbackRegistry s"
  "gFatalSignalCallbackRegistry (dumpSignalInfo sys signum info s) = gFatalSignalCallbackRegistry s"
  "gFatalSignalCallbackRegistry (dumpStackTrace sys symbolize s) = gFatalSignalCallbackRegistry s"
  by (simp_all add: dumpTimeInfo_def dumpSignalInfo_def dumpStackTrace_def flush_def)

lemma innerSignalHandler_cases:
  assumes "innerSignalHandler sys signum info s = Some s'"
  shows "(gSignalThread s = kInvalidThreadId \<and>
          s' = runCallbacks (dumpStackTrace sys True (dumpSignalInfo sys signum info
                 (dumpTimeInfo sys (emit [Store_gSignalThread (pthread_self sys)]
                    (s\<lparr>gSignalThread := pthread_self sys\<rparr>))))))
       \<or> (gSignalThread s \<noteq> kInvalidThreadId \<and> gSignalThread s = pthread_self sys \<and>
           \<not> gInRecursiveSignalHandler s \<and>
           s' = dumpStackTrace sys False
                  (emit [Print recursion_warning] (s\<lparr>gInRecursiveSignalHandler := True\<rparr>)))
       \<or> (gSignalThread s \<noteq> kInvalidThreadId \<and> gSignalThread s = pthread_self sys \<and>
           gInRecursiveSignalHandler s \<and> s' = s)"
proof (cases "gSignalThread s = kInvalidThreadId")
  case True
  with assms show ?thesis by (simp add: innerSignalHandler_won)
next
  case False
  with innerSignalHandler_Some_slot [OF assms] have own: "gSignalThread s = pthread_self sys"
    by simp
  with False have "pthread_self sys \<noteq> kInvalidThreadId" by simp
  with own assms False show ?thesis
    by (auto simp: innerSignalHandler_recursive split: if_splits)
qed

lemma innerSignalHandler_flag_mono:
  "innerSignalHandler sys signum info s = Some s' \<Longrightarrow>
   gInRecursiveSignalHandler s \<Longrightarrow> gInRecursiveSignalHandler s'"
  by (drule innerSignalHandler_cases) auto

lemma signalHandler_rest_flag [simp]:
  "gInRecursiveSignalHandler (signalHandler_rest signum s) = gInRecursiveSignalHandler s"
  by (simp add: signalHandler_rest_def flush_def callPreviousSignalHandler_def
      raise_signal_def sigaction_set_def split: option.splits)

lemma handler_history_flag_mono:
  "handler_history evs s = Some s' \<Longrightarrow>
   gInRecursiveSignalHandler s \<Longrightarrow> gInRecursiveSignalHandler s'"
proof (induction evs arbitrary: s)
  case Nil
  then show ?case by simp
next
  case (Cons e evs)
  from Cons.prems(1) obtain s1 where
    step: "handler_step e s = Some s1" and rest: "handler_history evs s1 = Some s'"
    by (auto split: option.splits)
  from step Cons.prems(2) have "gInRecursiveSignalHandler s1"
    by (cases e) (auto dest: innerSignalHandler_flag_mono)
  with rest show ?case by (rule Cons.IH)
qed

lemma signalHandler_eq:
  "signalHandler sys signum info s =
     map_option (signalHandler_rest signum) (innerSignalHandler sys signum info s)"
  by (simp add: signalHandler_def signalHandler_rest_def split: option.splits)

lemma innerSignalHandler_frame:
  assumes "innerSignalHandler sys signum info s = Some s1"
  shows "kFatalSignals s1 = kFatalSignals s \<and> disposition s1 = disposition s"
  using innerSignalHandler_cases [OF assms] by auto

lemma signalHandler_rest_effects:
  "effects (signalHandler_rest signum s1) =
     effects s1 @ [Store_gSignalThread kInvalidThreadId,
       Sigaction signum (case lookupFatalSignal (kFatalSignals s1) signum of
                           Some p \<Rightarrow> oldAction p | None \<Rightarrow> sigaction_zero),
       Raise signum, Flush, Fsync]"
  by (simp add: signalHandler_rest_def flush_def callPreviousSignalHandler_def
      raise_signal_def sigaction_set_def split: option.splits)

lemma signalHandler_rest_state:
  "gSignalThread (signalHandler_rest signum s1) = kInvalidThreadId \<and>
   disposition (signalHandler_rest signum s1) =
     (disposition s1)(signum := (case lookupFatalSignal (kFatalSignals s1) signum of
                                   Some p \<Rightarrow> oldAction p | None \<Rightarrow> sigaction_zero))"
  by (simp add: signalHandler_rest_def flush_def callPreviousSignalHandler_def
      raise_signal_def sigaction_set_def split: option.splits)

lemma lookupFatalSignal_None:
  "lookupFatalSignal table signum = None \<longleftrightarrow> signum \<notin> number ` set table"
  by (auto simp: lookupFatalSignal_def find_None_iff)

lemma install_initial:
  "\<exists>s0. installFatalSignalHandler (process_initial disp u) = Inr s0 \<and>
     (\<forall>signum. lookupFatalSignal (kFatalSignals s0) signum =
        (if signum \<in> {SIGSEGV, SIGILL, SIGFPE, SIGABRT, SIGBUS, SIGTERM}
         then Some \<lparr>number = signum,
                    name = (if signum = SIGSEGV then ''SIGSEGV'' else if signum = SIGILL then ''SIGILL''
                            else if signum = SIGFPE then ''SIGFPE'' else if signum = SIGABRT then ''SIGABRT''
                            else if signum = SIGBUS then ''SIGBUS'' else ''SIGTERM''),
                    oldAction = disp signum\<rparr>
         else None)) \<and>
     (\<forall>signum. disposition s0 signum =
        (if signum \<in> {SIGSEGV, SIGILL, SIGFPE, SIGABRT, SIGBUS, SIGTERM}
         then signalHandler_action else disp signum))"
  by (simp add: installFatalSignalHandler_def process_initial_def kFatalSignals_initial_def
      catchable_def signal_numbers sigaction_set_def emit_def lookupFatalSignal_def)

lemma signalHandler_rest_table:
  "kFatalSignals (signalHandler_rest signum s) = kFatalSignals s"
  by (simp add: signalHandler_rest_def flush_def callPreviousSignalHandler_def
      raise_signal_def sigaction_set_def split: option.splits)

lemma handler_step_table:
  "handler_step e s = Some s' \<Longrightarrow> kFatalSignals s' = kFatalSignals s"
  by (cases e) (auto simp: signalHandler_rest_table dest: innerSignalHandler_frame)

lemma handler_step_flag_mono:
  "handler_step e s = Some s' \<Longrightarrow> gInRecursiveSignalHandler s \<Longrightarrow> gInRecursiveSignalHandler s'"
  by (cases e) (auto dest: innerSignalHandler_flag_mono)

lemma handler_states_flag_mono:
  "s' \<in> set (handler_states evs s) \<Longrightarrow> gInRecursiveSignalHandler s \<Longrightarrow>
   gInRecursiveSignalHandler s'"
proof (induction evs arbitrary: s)
  case Nil
  then show ?case by simp
next
  case (Cons e evs)
  show ?case
  proof (cases "s' = s")
    case True
    with Cons.prems show ?thesis by simp
  next
    case False
    show ?thesis
    proof (cases "handler_step e s")
      case None
      with Cons.prems(1) False show ?thesis by simp
    next
      case (Some s1)
      with Cons.prems(1) False have mem: "s' \<in> set (handler_states evs s1)" by simp
      from handler_step_flag_mono [OF Some Cons.prems(2)] Cons.IH [OF mem] show ?thesis by blast
    qed
  qed
qed

lemma handler_states_sorted:
  "sorted (map gInRecursiveSignalHandler (handler_states evs s))"
proof (induction evs arbitrary: s)
  case Nil
  then show ?case by simp
next
  case (Cons e evs)
  show ?case
  proof (cases "handler_step e s")
    case None
    then show ?thesis by simp
  next
    case (Some s1)
    have "gInRecursiveSignalHandler s \<le> gInRecursiveSignalHandler s'"
      if "s' \<in> set (handler_states evs s1)" for s'
      using handler_states_flag_mono [OF that] handler_step_flag_mono [OF Some] by auto
    with Some Cons.IH [of s1] show ?thesis by auto
  qed
qed

lemma handler_history_in_states:
  "handler_history evs s = Some s' \<Longrightarrow> s' \<in> set (handler_states evs s)"
  by (induction evs arbitrary: s) (auto split: option.splits)

lemma signal_reason_not_warning:
  "signal_reason signum code = Some r \<Longrightarrow> r \<noteq> recursion_warning"
  by (auto simp: signal_reason_def sigill_reason_def sigfpe_reason_def sigsegv_reason_def
      sigbus_reason_def sigtrap_reason_def sigchld_reason_def sigio_reason_def
      recursion_warning_def newline_def split: if_splits)

lemma printHex_not_warning: "printHex val \<noteq> Print recursion_warning"
  by (simp add: printHex_def recursion_warning_def del: hex_digits.simps)

lemma frames_no_warning:
  "count_list (concat (map (\<lambda>a. [PrintAddress a, Print newline]) addresses))
     (Print recursion_warning) = 0"
  by (induction addresses) (simp_all add: recursion_warning_def newline_def)

lemma dump_warnings:
  "count_list (effects (dumpTimeInfo sys s)) (Print recursion_warning)
     = count_list (effects s) (Print recursion_warning)"
  "(\<forall>p. lookupFatalSignal (kFatalSignals s) signum = Some p \<longrightarrow> name p \<noteq> recursion_warning) \<Longrightarrow>
   count_list (effects (dumpSignalInfo sys signum info s)) (Print recursion_warning)
     = count_list (effects s) (Print recursion_warning)"
  "count_list (effects (dumpStackTrace sys symbolize s)) (Print recursion_warning)
     = count_list (effects s) (Print recursion_warning)"
proof -
  show "count_list (effects (dumpTimeInfo sys s)) (Print recursion_warning)
     = count_list (effects s) (Print recursion_warning)"
    by (simp add: dumpTimeInfo_def flush_def printDec_def recursion_warning_def newline_def)
  show "count_list (effects (dumpStackTrace sys symbolize s)) (Print recursion_warning)
     = count_list (effects s) (Print recursion_warning)"
    using frames_no_warning
    by (simp add: dumpStackTrace_def flush_def split: option.splits)
      (simp add: recursion_warning_def newline_def)
  assume names: "\<forall>p. lookupFatalSignal (kFatalSignals s) signum = Some p \<longrightarrow>
      name p \<noteq> recursion_warning"
  have a: "count_list (case lookupFatalSignal (kFatalSignals s) signum of
             None \<Rightarrow> []
           | Some p \<Rightarrow> [Print '' ('', Print (name p), Print '')'']) (Print recursion_warning) = 0"
    using names by (simp add: recursion_warning_def split: option.splits)
  have b: "count_list (case signal_reason signum (si_code info) of
             None \<Rightarrow> []
           | Some reason \<Rightarrow> [Print '') (code: '', Print reason]) (Print recursion_warning) = 0"
    using signal_reason_not_warning [of signum "si_code info"]
    by (simp add: recursion_warning_def split: option.splits)
  show "count_list (effects (dumpSignalInfo sys signum info s)) (Print recursion_warning)
     = count_list (effects s) (Print recursion_warning)"
    using a b printHex_not_warning
    by (simp add: dumpSignalInfo_def flush_def printDec_def)
      (simp add: recursion_warning_def newline_def)
qed

lemma handler_step_warnings:
  assumes names: "\<forall>signum p. lookupFatalSignal (kFatalSignals s) signum = Some p \<longrightarrow>
                    name p \<noteq> recursion_warning"
    and cnt: "count_list (effects s) (Print recursion_warning)
                = (if gInRecursiveSignalHandler s then 1 else 0)"
    and step: "handler_step e s = Some s'"
  shows "count_list (effects s') (Print recursion_warning)
           = (if gInRecursiveSignalHandler s' then 1 else 0)"
proof (cases e)
  case (Enter sys signum info)
  with step have inner: "innerSignalHandler sys signum info s = Some s'" by simp
  from names have n: "\<forall>p. lookupFatalSignal (kFatalSignals s) signum = Some p \<longrightarrow>
      name p \<noteq> recursion_warning" by blast
  from innerSignalHandler_cases [OF inner] show ?thesis
  proof (elim disjE conjE)
    assume "s' = runCallbacks (dumpStackTrace sys True (dumpSignalInfo sys signum info
                 (dumpTimeInfo sys (emit [Store_gSignalThread (pthread_self sys)]
                    (s\<lparr>gSignalThread := pthread_self sys\<rparr>)))))"
    with cnt n show ?thesis by (simp add: dump_warnings)
  next
    assume "\<not> gInRecursiveSignalHandler s"
      "s' = dumpStackTrace sys False
              (emit [Print recursion_warning] (s\<lparr>gInRecursiveSignalHandler := True\<rparr>))"
    with cnt show ?thesis by (simp add: dump_warnings)
  next
    assume "s' = s"
    with cnt show ?thesis by simp
  qed
next
  case (Leave signum)
  with step have "s' = signalHandler_rest signum s" by simp
  with cnt show ?thesis by (simp add: signalHandler_rest_effects)
qed

lemma handler_states_warnings:
  assumes "\<forall>signum p. lookupFatalSignal (kFatalSignals s) signum = Some p \<longrightarrow>
             name p \<noteq> recursion_warning"
    and "count_list (effects s) (Print recursion_warning)
           = (if gInRecursiveSignalHandler s then 1 else 0)"
    and "s' \<in> set (handler_states evs s)"
  shows "count_list (effects s') (Print recursion_warning)
           = (if gInRecursiveSignalHandler s' then 1 else 0)"
  using assms
proof (induction evs arbitrary: s)
  case Nil
  then show ?case by simp
next
  case (Cons e evs)
  show ?case
  proof (cases "s' = s")
    case True
    with Cons.prems show ?thesis by simp
  next
    case False
    show ?thesis
    proof (cases "handler_step e s")
      case None
      with Cons.prems(3) False show ?thesis by simp
    next
      case (Some s1)
      with Cons.prems(3) False have mem: "s' \<in> set (handler_states evs s1)" by simp
      from handler_step_table [OF Some] Cons.prems(1)
      have n1: "\<forall>signum p. lookupFatalSignal (kFatalSignals s1) signum = Some p \<longrightarrow>
                  name p \<noteq> recursion_warning" by simp
      from handler_step_warnings [OF Cons.prems(1,2) Some]
      show ?thesis by (rule Cons.IH [OF n1 _ mem])
    qed
  qed
qed

lemma initial_names:
  assumes "s0 = process_initial disp u \<or> installFatalSignalHandler (process_initial disp u) = Inr s0"
  shows "(\<forall>signum p. lookupFatalSignal (kFatalSignals s0) signum = Some p \<longrightarrow>
            name p \<noteq> recursion_warning) \<and>
         \<not> gInRecursiveSignalHandler s0 \<and>
         count_list (effects s0) (Print recursion_warning) = 0 \<and>
         gSignalThread s0 = kInvalidThreadId"
  using assms
proof
  assume "s0 = process_initial disp u"
  then show ?thesis
    by (auto simp: process_initial_def kFatalSignals_initial_def lookupFatalSignal_def
        recursion_warning_def split: if_splits)
next
  assume inst: "installFatalSignalHandler (process_initial disp u) = Inr s0"
  from install_initial [of disp u] inst
  have look: "\<forall>signum. lookupFatalSignal (kFatalSignals s0) signum =
        (if signum \<in> {SIGSEGV, SIGILL, SIGFPE, SIGABRT, SIGBUS, SIGTERM}
         then Some \<lparr>number = signum,
                    name = (if signum = SIGSEGV then ''SIGSEGV'' else if signum = SIGILL then ''SIGILL''
                            else if signum = SIGFPE then ''SIGFPE'' else if signum = SIGABRT then ''SIGABRT''
                            else if signum = SIGBUS then ''SIGBUS'' else ''SIGTERM''),
                    oldAction = disp signum\<rparr>
         else None)"
    by auto
  have names: "\<forall>signum p. lookupFatalSignal (kFatalSignals s0) signum = Some p \<longrightarrow>
            name p \<noteq> recursion_warning"
  proof (intro allI impI)
    fix signum p assume "lookupFatalSignal (kFatalSignals s0) signum = Some p"
    with look [rule_format, of signum] show "name p \<noteq> recursion_warning"
      by (auto simp: recursion_warning_def split: if_splits)
  qed
  have rest: "\<not> gInRecursiveSignalHandler s0 \<and>
         count_list (effects s0) (Print recursion_warning) = 0 \<and>
         gSignalThread s0 = kInvalidThreadId"
    using inst
    by (auto simp: installFatalSignalHandler_def process_initial_def kFatalSignals_initial_def
        catchable_def signal_numbers sigaction_set_def emit_def)
  from names rest show ?thesis by blast
qed


lemma dump_slot:
  "gSignalThread (dumpTimeInfo sys s) = gSignalThread s"
  "gSignalThread (dumpSignalInfo sys signum info s) = gSignalThread s"
  "gSignalThread (dumpStackTrace sys symbolize s) = gSignalThread s"
  by (simp_all add: dumpTimeInfo_def dumpSignalInfo_def dumpStackTrace_def flush_def)

text \<open>
  C2, amended. A thread that enters the handler while the claim slot already holds its own
  id takes the recursive path. If the one-shot flag is still clear, the handler sets it and
  appends to the output the warning line and then what \<open>dumpStackTrace(false)\<close> prints,
  never through the symbolizer: when the frames were captured, the safe-mode line and the
  frames as bare addresses, one per line; when the capture failed, the error line alone.
  If the flag is already set, the handler returns with the process state, and so the
  output, unchanged, and this after any handler activity that followed the setting of the
  flag. A thread that wins the claim leaves the flag as it is, and so does the rest of
  \<open>signalHandler\<close>; the flag is clear in the initial process, also after the handler is
  installed; along every history of handler activity the flag never goes back from true
  to false, so it goes from false to true at most once; and in every state that a history
  from the initial process reaches, the output holds the warning line once if the flag is
  set and not at all if it is clear.
\<close>

theorem C2_recursive_fault_reported_once:
  "(gSignalThread s = pthread_self sys \<and> pthread_self sys \<noteq> kInvalidThreadId \<longrightarrow>
      (\<not> gInRecursiveSignalHandler s \<longrightarrow>
         (\<exists>s'. innerSignalHandler sys signum info s = Some s' \<and>
            effects s' =
              effects s
              @ (Print recursion_warning
                 # (case getStackTraceSafe sys of
                      None \<Rightarrow> [Print (''(error retrieving stack trace)'' @ newline)]
                    | Some addresses \<Rightarrow>
                        Print (''(safe mode, symbolizer not available)'' @ newline)
                        # concat (map (\<lambda>a. [PrintAddress a, Print newline]) addresses))
                 @ [Flush, Fsync]) \<and>
            gInRecursiveSignalHandler s' \<and>
            s'\<lparr>effects := effects s\<rparr> = s\<lparr>gInRecursiveSignalHandler := True\<rparr>)) \<and>
      (gInRecursiveSignalHandler s \<longrightarrow>
         innerSignalHandler sys signum info s = Some s \<and>
         map_option effects (innerSignalHandler sys signum info s) = Some (effects s))) \<and>
   (gInRecursiveSignalHandler s \<and> handler_history evs s = Some s' \<and>
    gSignalThread s' = pthread_self sys \<and> pthread_self sys \<noteq> kInvalidThreadId \<longrightarrow>
      innerSignalHandler sys signum info s' = Some s' \<and>
      map_option effects (innerSignalHandler sys signum info s') = Some (effects s')) \<and>
   (gSignalThread s = kInvalidThreadId \<and> innerSignalHandler sys signum info s = Some s' \<longrightarrow>
      gInRecursiveSignalHandler s' = gInRecursiveSignalHandler s) \<and>
   gInRecursiveSignalHandler (signalHandler_rest signum s) = gInRecursiveSignalHandler s \<and>
   (s0 = process_initial disp u \<or> installFatalSignalHandler (process_initial disp u) = Inr s0 \<longrightarrow>
      \<not> gInRecursiveSignalHandler s0) \<and>
   (handler_history evs s = Some s' \<and> gInRecursiveSignalHandler s \<longrightarrow>
      gInRecursiveSignalHandler s') \<and>
   sorted (map gInRecursiveSignalHandler (handler_states evs s)) \<and>
   ((s0 = process_initial disp u \<or> installFatalSignalHandler (process_initial disp u) = Inr s0) \<and>
    s1 \<in> set (handler_states evs s0) \<longrightarrow>
      count_list (effects s1) (Print recursion_warning)
        = (if gInRecursiveSignalHandler s1 then 1 else 0))"
proof (intro conjI impI)
  assume own: "gSignalThread s = pthread_self sys \<and> pthread_self sys \<noteq> kInvalidThreadId"
  assume clear: "\<not> gInRecursiveSignalHandler s"
  let ?s' = "dumpStackTrace sys False
               (emit [Print recursion_warning] (s\<lparr>gInRecursiveSignalHandler := True\<rparr>))"
  from own clear have "innerSignalHandler sys signum info s = Some ?s'"
    by (simp add: innerSignalHandler_recursive)
  moreover have "effects ?s' =
              effects s
              @ (Print recursion_warning
                 # (case getStackTraceSafe sys of
                      None \<Rightarrow> [Print (''(error retrieving stack trace)'' @ newline)]
                    | Some addresses \<Rightarrow>
                        Print (''(safe mode, symbolizer not available)'' @ newline)
                        # concat (map (\<lambda>a. [PrintAddress a, Print newline]) addresses))
                 @ [Flush, Fsync])"
    by (simp add: dumpStackTrace_def flush_def split: option.splits)
  moreover have "gInRecursiveSignalHandler ?s'" by simp
  moreover have "?s'\<lparr>effects := effects s\<rparr> = s\<lparr>gInRecursiveSignalHandler := True\<rparr>"
    by (simp add: dumpStackTrace_def flush_def emit_def)
  ultimately show "\<exists>s'. innerSignalHandler sys signum info s = Some s' \<and>
            effects s' =
              effects s
              @ (Print recursion_warning
                 # (case getStackTraceSafe sys of
                      None \<Rightarrow> [Print (''(error retrieving stack trace)'' @ newline)]
                    | Some addresses \<Rightarrow>
                        Print (''(safe mode, symbolizer not available)'' @ newline)
                        # concat (map (\<lambda>a. [PrintAddress a, Print newline]) addresses))
                 @ [Flush, Fsync]) \<and>
            gInRecursiveSignalHandler s' \<and>
            s'\<lparr>effects := effects s\<rparr> = s\<lparr>gInRecursiveSignalHandler := True\<rparr>"
    by blast
next
  assume "gSignalThread s = pthread_self sys \<and> pthread_self sys \<noteq> kInvalidThreadId"
    and "gInRecursiveSignalHandler s"
  then show "innerSignalHandler sys signum info s = Some s"
    by (simp add: innerSignalHandler_recursive)
next
  assume "gSignalThread s = pthread_self sys \<and> pthread_self sys \<noteq> kInvalidThreadId"
    and "gInRecursiveSignalHandler s"
  then show "map_option effects (innerSignalHandler sys signum info s) = Some (effects s)"
    by (simp add: innerSignalHandler_recursive)
next
  assume a: "gInRecursiveSignalHandler s \<and> handler_history evs s = Some s' \<and>
    gSignalThread s' = pthread_self sys \<and> pthread_self sys \<noteq> kInvalidThreadId"
  then have "gInRecursiveSignalHandler s'" using handler_history_flag_mono by blast
  with a show "innerSignalHandler sys signum info s' = Some s'"
    by (simp add: innerSignalHandler_recursive)
next
  assume a: "gInRecursiveSignalHandler s \<and> handler_history evs s = Some s' \<and>
    gSignalThread s' = pthread_self sys \<and> pthread_self sys \<noteq> kInvalidThreadId"
  then have "gInRecursiveSignalHandler s'" using handler_history_flag_mono by blast
  with a show "map_option effects (innerSignalHandler sys signum info s') = Some (effects s')"
    by (simp add: innerSignalHandler_recursive)
next
  assume "gSignalThread s = kInvalidThreadId \<and> innerSignalHandler sys signum info s = Some s'"
  then show "gInRecursiveSignalHandler s' = gInRecursiveSignalHandler s"
    by (auto simp: innerSignalHandler_won)
next
  show "gInRecursiveSignalHandler (signalHandler_rest signum s) = gInRecursiveSignalHandler s"
    by simp
next
  assume "s0 = process_initial disp u \<or>
    installFatalSignalHandler (process_initial disp u) = Inr s0"
  from initial_names [OF this] show "\<not> gInRecursiveSignalHandler s0" by blast
next
  assume "handler_history evs s = Some s' \<and> gInRecursiveSignalHandler s"
  then show "gInRecursiveSignalHandler s'"
    using handler_history_flag_mono by blast
next
  show "sorted (map gInRecursiveSignalHandler (handler_states evs s))"
    by (rule handler_states_sorted)
next
  assume a: "(s0 = process_initial disp u \<or>
     installFatalSignalHandler (process_initial disp u) = Inr s0) \<and>
    s1 \<in> set (handler_states evs s0)"
  then have start: "s0 = process_initial disp u \<or>
     installFatalSignalHandler (process_initial disp u) = Inr s0"
    and mem: "s1 \<in> set (handler_states evs s0)" by blast+
  from initial_names [OF start]
  have names: "\<forall>signum p. lookupFatalSignal (kFatalSignals s0) signum = Some p \<longrightarrow>
            name p \<noteq> recursion_warning"
    and cnt: "count_list (effects s0) (Print recursion_warning)
                = (if gInRecursiveSignalHandler s0 then 1 else 0)"
    by simp_all
  from handler_states_warnings [OF names cnt mem]
  show "count_list (effects s1) (Print recursion_warning)
        = (if gInRecursiveSignalHandler s1 then 1 else 0)" .
qed


theorem C2_recursive_fault_reported_once_witness:
  "(\<exists>s'. innerSignalHandler example_os SIGBUS example_info (example_process\<lparr>gSignalThread := 7\<rparr>)
           = Some s' \<and>
      effects s' = [Print recursion_warning,
                    Print (''(safe mode, symbolizer not available)'' @ newline),
                    PrintAddress 0x400000, Print newline, PrintAddress 0x400010, Print newline,
                    Flush, Fsync] \<and>
      gInRecursiveSignalHandler s') \<and>
   innerSignalHandler example_os SIGBUS example_info
       (example_process\<lparr>gSignalThread := 7, gInRecursiveSignalHandler := True\<rparr>) =
     Some (example_process\<lparr>gSignalThread := 7, gInRecursiveSignalHandler := True\<rparr>) \<and>
   (\<exists>s'. handler_history [Enter example_os SIGSEGV example_info]
            (example_process\<lparr>gInRecursiveSignalHandler := True\<rparr>) = Some s' \<and>
      gInRecursiveSignalHandler s' \<and>
      innerSignalHandler example_os SIGBUS example_info s' = Some s') \<and>
   (\<exists>s'. innerSignalHandler example_os SIGSEGV example_info example_process = Some s' \<and>
      \<not> gInRecursiveSignalHandler s') \<and>
   \<not> gInRecursiveSignalHandler example_process \<and>
   (\<exists>s'. handler_history [Enter example_os SIGSEGV example_info,
                           Enter example_os SIGSEGV example_info,
                           Enter example_os SIGBUS example_info]
            example_process = Some s' \<and>
      gInRecursiveSignalHandler s' \<and>
      count_list (effects s') (Print recursion_warning) = 1)"
proof -
  let ?s = "example_process\<lparr>gSignalThread := 7\<rparr>"
  let ?t = "example_process\<lparr>gSignalThread := 7, gInRecursiveSignalHandler := True\<rparr>"
  let ?f = "example_process\<lparr>gInRecursiveSignalHandler := True\<rparr>"
  let ?evs = "[Enter example_os SIGSEGV example_info, Enter example_os SIGSEGV example_info,
               Enter example_os SIGBUS example_info]"
  have self: "pthread_self example_os = 7" "pthread_self example_os \<noteq> kInvalidThreadId"
    by (simp_all add: example_os_def kInvalidThreadId_def)
  have frames: "getStackTraceSafe example_os = Some [0x400000, 0x400010]"
    by (simp add: example_os_def)
  have flags: "\<not> gInRecursiveSignalHandler ?s" "gInRecursiveSignalHandler ?t"
    "\<not> gInRecursiveSignalHandler example_process" "gInRecursiveSignalHandler ?f"
    by (simp_all add: example_process_def process_initial_def)
  have slots: "gSignalThread ?s = 7" "gSignalThread ?t = 7"
    "gSignalThread example_process = kInvalidThreadId" "gSignalThread ?f = kInvalidThreadId"
    by (simp_all add: example_process_def process_initial_def)
  have log: "effects ?s = []"
    by (simp add: example_process_def process_initial_def)
  have start: "example_process = process_initial (\<lambda>signum. sigaction_zero) ([] :: string list)"
    by (simp add: example_process_def)
  have a: "\<exists>s'. innerSignalHandler example_os SIGBUS example_info ?s = Some s' \<and>
      effects s' = [Print recursion_warning,
                    Print (''(safe mode, symbolizer not available)'' @ newline),
                    PrintAddress 0x400000, Print newline, PrintAddress 0x400010, Print newline,
                    Flush, Fsync] \<and>
      gInRecursiveSignalHandler s'"
    using C2_recursive_fault_reported_once
            [where s = ?s and sys = example_os and signum = SIGBUS and info = example_info
               and evs = "[]" and s' = ?s and ?s0.0 = example_process and ?s1.0 = example_process
               and disp = "\<lambda>signum. sigaction_zero" and u = "[]"]
          self slots(1) flags(1) frames log
    by auto
  have b: "innerSignalHandler example_os SIGBUS example_info ?t = Some ?t"
    using C2_recursive_fault_reported_once
            [where s = ?t and sys = example_os and signum = SIGBUS and info = example_info
               and evs = "[]" and s' = ?t and ?s0.0 = example_process and ?s1.0 = example_process
               and disp = "\<lambda>signum. sigaction_zero" and u = "[]"]
          self slots(2) flags(2)
    by simp
  obtain w where won': "innerSignalHandler example_os SIGSEGV example_info ?f = Some w"
    and slot': "gSignalThread w = 7"
    using slots(4) self(1) by (simp add: innerSignalHandler_won dump_slot)
  have hist': "handler_history [Enter example_os SIGSEGV example_info] ?f = Some w"
    using won' by simp
  have c: "gInRecursiveSignalHandler w \<and>
           innerSignalHandler example_os SIGBUS example_info w = Some w"
    using C2_recursive_fault_reported_once
            [where s = ?f and sys = example_os and signum = SIGBUS and info = example_info
               and evs = "[Enter example_os SIGSEGV example_info]" and s' = w
               and ?s0.0 = example_process and ?s1.0 = example_process
               and disp = "\<lambda>signum. sigaction_zero" and u = "[]"]
          self slot' flags(4) hist'
    by simp
  obtain s1 where won: "innerSignalHandler example_os SIGSEGV example_info example_process = Some s1"
    and slot1: "gSignalThread s1 = 7"
    using slots(3) self(1) by (simp add: innerSignalHandler_won dump_slot)
  have d: "\<not> gInRecursiveSignalHandler s1"
    using C2_recursive_fault_reported_once
            [where s = example_process and sys = example_os and signum = SIGSEGV
               and info = example_info and evs = "[]" and s' = s1
               and ?s0.0 = example_process and ?s1.0 = example_process
               and disp = "\<lambda>signum. sigaction_zero" and u = "[]"]
          slots(3) won flags(3)
    by simp
  have e: "\<not> gInRecursiveSignalHandler example_process"
    using C2_recursive_fault_reported_once
            [where s = example_process and sys = example_os and signum = SIGSEGV
               and info = example_info and evs = "[]" and s' = s1
               and ?s0.0 = example_process and ?s1.0 = example_process
               and disp = "\<lambda>signum. sigaction_zero" and u = "[]"]
          start
    by blast
  obtain s2 where first: "innerSignalHandler example_os SIGSEGV example_info s1 = Some s2"
    and slot2: "gSignalThread s2 = 7" and flag2: "gInRecursiveSignalHandler s2"
    using slot1 self d by (simp add: innerSignalHandler_recursive dump_slot)
  have second: "innerSignalHandler example_os SIGBUS example_info s2 = Some s2"
    using slot2 self flag2 by (simp add: innerSignalHandler_recursive)
  have hist: "handler_history ?evs example_process = Some s2"
    using won first second by simp
  have f: "count_list (effects s2) (Print recursion_warning) = 1"
    using C2_recursive_fault_reported_once
            [where s = example_process and sys = example_os and signum = SIGSEGV
               and info = example_info and evs = ?evs and s' = s2
               and ?s0.0 = example_process and ?s1.0 = s2
               and disp = "\<lambda>signum. sigaction_zero" and u = "[]",
             THEN conjunct2, THEN conjunct2, THEN conjunct2, THEN conjunct2,
             THEN conjunct2, THEN conjunct2, THEN conjunct2, THEN mp,
             OF conjI [OF disjI1 [OF start] handler_history_in_states [OF hist]]]
          flag2
    by simp
  from a b c d e f won hist hist' flag2 show ?thesis by blast
qed

text \<open>
  C2, as stated, fails when the frames cannot be captured: the first recursive fault then
  prints the warning line and the error line, and no address.
\<close>

theorem C2_capture_fails_counterexample:
  "map_option effects
     (innerSignalHandler (example_os\<lparr>getStackTraceSafe := None\<rparr>) SIGBUS example_info
        (example_process\<lparr>gSignalThread := 7\<rparr>))
     = Some [Print recursion_warning, Print (''(error retrieving stack trace)'' @ newline),
             Flush, Fsync]"
  by (simp add: innerSignalHandler_recursive example_os_def example_process_def
      process_initial_def kInvalidThreadId_def dumpStackTrace_def flush_def)

text \<open>
  C3. Whenever \<open>signalHandler\<close> returns, what it did after \<open>innerSignalHandler\<close> is, in
  this order: store \<open>kInvalidThreadId\<close> to the claim slot, \<open>sigaction\<close> for the same
  signal with the \<open>oldAction\<close> of its table entry (the zeroed, \<open>SIG_DFL\<close> action when
  the number is not in the table), \<open>raise\<close> of the same signal, and the final flush. It
  returns whenever the slot is free or the thread's own. After
  \<open>installFatalSignalHandler\<close> on a fresh process, the action restored for SIGSEGV,
  SIGILL, SIGFPE, SIGABRT, SIGBUS and SIGTERM is the disposition the signal had before the
  installation, and the default one for every other number.
\<close>

theorem C3_release_then_restore_then_reraise:
  "(signalHandler sys signum info s = Some s' \<longrightarrow>
      (\<exists>s1. innerSignalHandler sys signum info s = Some s1 \<and>
         effects s' =
           effects s1 @
             [Store_gSignalThread kInvalidThreadId,
              Sigaction signum (case lookupFatalSignal (kFatalSignals s) signum of
                                  Some p \<Rightarrow> oldAction p | None \<Rightarrow> sigaction_zero),
              Raise signum, Flush, Fsync] \<and>
         gSignalThread s' = kInvalidThreadId \<and>
         disposition s' =
           (disposition s)(signum := (case lookupFatalSignal (kFatalSignals s) signum of
                                        Some p \<Rightarrow> oldAction p | None \<Rightarrow> sigaction_zero)))) \<and>
   (gSignalThread s = kInvalidThreadId \<or> gSignalThread s = pthread_self sys \<longrightarrow>
      signalHandler sys signum info s \<noteq> None) \<and>
   (installFatalSignalHandler (process_initial disp (u :: 'u)) = Inr s0 \<and>
    kFatalSignals (s :: 'u process) = kFatalSignals s0 \<and>
    signalHandler sys signum info s = Some s' \<longrightarrow>
      disposition s' signum =
        (if signum \<in> {SIGSEGV, SIGILL, SIGFPE, SIGABRT, SIGBUS, SIGTERM} then disp signum
         else sigaction_zero))"
proof (intro conjI impI)
  assume ret: "signalHandler sys signum info s = Some s'"
  then obtain s1 where inner: "innerSignalHandler sys signum info s = Some s1"
    and s': "s' = signalHandler_rest signum s1"
    by (auto simp: signalHandler_eq)
  from innerSignalHandler_frame [OF inner] s'
  show "\<exists>s1. innerSignalHandler sys signum info s = Some s1 \<and>
         effects s' =
           effects s1 @
             [Store_gSignalThread kInvalidThreadId,
              Sigaction signum (case lookupFatalSignal (kFatalSignals s) signum of
                                  Some p \<Rightarrow> oldAction p | None \<Rightarrow> sigaction_zero),
              Raise signum, Flush, Fsync] \<and>
         gSignalThread s' = kInvalidThreadId \<and>
         disposition s' =
           (disposition s)(signum := (case lookupFatalSignal (kFatalSignals s) signum of
                                        Some p \<Rightarrow> oldAction p | None \<Rightarrow> sigaction_zero))"
    using inner signalHandler_rest_effects [of signum s1] signalHandler_rest_state [of signum s1]
    by simp
next
  assume "gSignalThread s = kInvalidThreadId \<or> gSignalThread s = pthread_self sys"
  then have "innerSignalHandler sys signum info s \<noteq> None"
    by (cases "gSignalThread s = kInvalidThreadId")
      (auto simp: innerSignalHandler_won innerSignalHandler_recursive)
  then show "signalHandler sys signum info s \<noteq> None"
    by (simp add: signalHandler_eq)
next
  assume a: "installFatalSignalHandler (process_initial disp u) = Inr s0 \<and>
    kFatalSignals s = kFatalSignals s0 \<and>
    signalHandler sys signum info s = Some s'"
  then obtain s1 where inner: "innerSignalHandler sys signum info s = Some s1"
    and s': "s' = signalHandler_rest signum s1"
    by (auto simp: signalHandler_eq)
  from install_initial [of disp u] a
  have look: "lookupFatalSignal (kFatalSignals s0) signum =
        (if signum \<in> {SIGSEGV, SIGILL, SIGFPE, SIGABRT, SIGBUS, SIGTERM}
         then Some \<lparr>number = signum,
                    name = (if signum = SIGSEGV then ''SIGSEGV'' else if signum = SIGILL then ''SIGILL''
                            else if signum = SIGFPE then ''SIGFPE'' else if signum = SIGABRT then ''SIGABRT''
                            else if signum = SIGBUS then ''SIGBUS'' else ''SIGTERM''),
                    oldAction = disp signum\<rparr>
         else None)"
    by auto
  from innerSignalHandler_frame [OF inner] a have "kFatalSignals s1 = kFatalSignals s0"
    by simp
  with look s' signalHandler_rest_state [of signum s1]
  show "disposition s' signum =
        (if signum \<in> {SIGSEGV, SIGILL, SIGFPE, SIGABRT, SIGBUS, SIGTERM} then disp signum
         else sigaction_zero)"
    by (simp split: if_splits)
qed

theorem C3_release_then_restore_then_reraise_witness:
  "(\<exists>s0 s1 s'. installFatalSignalHandler
        (process_initial (\<lambda>signum. \<lparr>sa_handler = UserHandler 99, sa_mask = [], sa_flags = []\<rparr>)
           ([] :: string list)) = Inr s0 \<and>
      innerSignalHandler example_os SIGSEGV example_info s0 = Some s1 \<and>
      signalHandler example_os SIGSEGV example_info s0 = Some s' \<and>
      effects s' =
        effects s1 @
          [Store_gSignalThread kInvalidThreadId,
           Sigaction SIGSEGV \<lparr>sa_handler = UserHandler 99, sa_mask = [], sa_flags = []\<rparr>,
           Raise SIGSEGV, Flush, Fsync] \<and>
      gSignalThread s' = kInvalidThreadId \<and>
      disposition s' SIGSEGV = \<lparr>sa_handler = UserHandler 99, sa_mask = [], sa_flags = []\<rparr>) \<and>
   (\<exists>s1 s'. innerSignalHandler example_os SIGTRAP example_info example_process = Some s1 \<and>
      signalHandler example_os SIGTRAP example_info example_process = Some s' \<and>
      effects s' =
        effects s1 @
          [Store_gSignalThread kInvalidThreadId, Sigaction SIGTRAP sigaction_zero,
           Raise SIGTRAP, Flush, Fsync])"
proof -
  let ?old = "\<lparr>sa_handler = UserHandler 99, sa_mask = [], sa_flags = []\<rparr>"
  let ?p = "process_initial (\<lambda>signum. ?old) ([] :: string list)"
  obtain s0 where inst: "installFatalSignalHandler ?p = Inr s0"
    and look: "lookupFatalSignal (kFatalSignals s0) SIGSEGV =
                 Some \<lparr>number = SIGSEGV, name = ''SIGSEGV'', oldAction = ?old\<rparr>"
    using install_initial [of "\<lambda>signum. ?old" "[] :: string list"] by auto
  have free0: "gSignalThread s0 = kInvalidThreadId"
    using inst
    by (auto simp: installFatalSignalHandler_def process_initial_def kFatalSignals_initial_def
        catchable_def signal_numbers sigaction_set_def emit_def)
  have free: "gSignalThread example_process = kInvalidThreadId"
    by (simp add: example_process_def process_initial_def)
  have look2: "lookupFatalSignal (kFatalSignals example_process) SIGTRAP = None"
    by (simp add: example_process_def process_initial_def kFatalSignals_initial_def
        lookupFatalSignal_def signal_numbers)
  have "signalHandler example_os SIGSEGV example_info s0 \<noteq> None"
    using C3_release_then_restore_then_reraise
            [where s = s0 and sys = example_os and signum = SIGSEGV and info = example_info
               and s' = s0 and disp = "\<lambda>signum. ?old" and u = "[]" and ?s0.0 = s0]
          free0
    by blast
  then obtain s' where ret: "signalHandler example_os SIGSEGV example_info s0 = Some s'"
    by auto
  have "signalHandler example_os SIGTRAP example_info example_process \<noteq> None"
    using C3_release_then_restore_then_reraise
            [where s = example_process and sys = example_os and signum = SIGTRAP
               and info = example_info and s' = example_process
               and disp = "\<lambda>signum. ?old" and u = "[]" and ?s0.0 = s0]
          free
    by blast
  then obtain t' where ret2: "signalHandler example_os SIGTRAP example_info example_process = Some t'"
    by auto
  have a: "\<exists>s1. innerSignalHandler example_os SIGSEGV example_info s0 = Some s1 \<and>
      effects s' = effects s1 @ [Store_gSignalThread kInvalidThreadId, Sigaction SIGSEGV ?old,
           Raise SIGSEGV, Flush, Fsync] \<and>
      gSignalThread s' = kInvalidThreadId"
    using C3_release_then_restore_then_reraise
            [where s = s0 and sys = example_os and signum = SIGSEGV and info = example_info
               and s' = s' and disp = "\<lambda>signum. ?old" and u = "[]" and ?s0.0 = s0]
          ret look
    by auto
  have b: "disposition s' SIGSEGV = ?old"
    using C3_release_then_restore_then_reraise
            [where s = s0 and sys = example_os and signum = SIGSEGV and info = example_info
               and s' = s' and disp = "\<lambda>signum. ?old" and u = "[]" and ?s0.0 = s0]
          ret inst
    by simp
  have c: "\<exists>s1. innerSignalHandler example_os SIGTRAP example_info example_process = Some s1 \<and>
      effects t' = effects s1 @ [Store_gSignalThread kInvalidThreadId,
           Sigaction SIGTRAP sigaction_zero, Raise SIGTRAP, Flush, Fsync]"
    using C3_release_then_restore_then_reraise
            [where s = example_process and sys = example_os and signum = SIGTRAP
               and info = example_info and s' = t'
               and disp = "\<lambda>signum. ?old" and u = "[]" and ?s0.0 = s0]
          ret2 look2
    by auto
  from a b c inst ret ret2 show ?thesis by blast
qed

lemma registrations_append:
  "registrations (xs @ ys) r =
     (case registrations xs r of Inl e \<Rightarrow> Inl e | Inr r' \<Rightarrow> registrations ys r')"
  by (induction xs arbitrary: r) (auto split: sum.splits)

text \<open>
  C10. A thread that wins the claim reaches the callback stage, and there the registered
  callbacks run, in the order of the sequence, only if the registry was marked installed;
  otherwise none runs. Callbacks registered with \<open>addFatalSignalCallback\<close> and never
  followed by \<open>installFatalSignalCallbacks\<close> are therefore not run, and with the
  installation they run in registration order.
\<close>

theorem C10_callbacks_only_when_installed:
  "(gSignalThread (s :: 'u process) = kInvalidThreadId \<longrightarrow>
      (\<exists>s'. innerSignalHandler sys signum info s = Some s' \<and>
         user s' =
           (if installed' (gFatalSignalCallbackRegistry s)
            then foldl (\<lambda>w fn. fn w) (user s) (handlers' (gFatalSignalCallbackRegistry s))
            else user s))) \<and>
   (registrations (map AddFatalSignalCallback cbs) FatalSignalCallbackRegistry_new = Inr r \<longrightarrow>
      handlers' r = cbs \<and> run r (u :: 'u) = u) \<and>
   (registrations (map AddFatalSignalCallback cbs @ [InstallFatalSignalCallbacks])
      FatalSignalCallbackRegistry_new = Inr r \<longrightarrow>
      handlers' r = cbs \<and> run r u = foldl (\<lambda>w fn. fn w) u cbs)"
proof -
  have won: "gSignalThread s = kInvalidThreadId \<Longrightarrow>
      \<exists>s'. innerSignalHandler sys signum info s = Some s' \<and>
         user s' =
           (if installed' (gFatalSignalCallbackRegistry s)
            then foldl (\<lambda>w fn. fn w) (user s) (handlers' (gFatalSignalCallbackRegistry s))
            else user s)"
    by (simp add: innerSignalHandler_won run_def)
  have never: "handlers' r = cbs \<and> run r u = u"
    if "registrations (map AddFatalSignalCallback cbs) FatalSignalCallbackRegistry_new = Inr r"
    using that by (auto simp: registrations_adds FatalSignalCallbackRegistry_new_def run_def)
  have frozen: "handlers' r = cbs \<and> run r u = foldl (\<lambda>w fn. fn w) u cbs"
    if "registrations (map AddFatalSignalCallback cbs @ [InstallFatalSignalCallbacks])
          FatalSignalCallbackRegistry_new = Inr r"
    using that
    by (auto simp: registrations_append registrations_adds FatalSignalCallbackRegistry_new_def
        run_def installFatalSignalCallbacks_def markInstalled_def)
  from won never frozen show ?thesis by blast
qed


theorem C10_callbacks_only_when_installed_witness:
  "(\<exists>s'. innerSignalHandler example_os SIGSEGV example_info
            (example_process\<lparr>gFatalSignalCallbackRegistry :=
               \<lparr>installed' = False, handlers' = [\<lambda>u. u @ [''first''], \<lambda>u. u @ [''second'']]\<rparr>\<rparr>)
          = Some s' \<and> user s' = []) \<and>
   (\<exists>s'. innerSignalHandler example_os SIGSEGV example_info
            (example_process\<lparr>gFatalSignalCallbackRegistry :=
               \<lparr>installed' = True, handlers' = [\<lambda>u. u @ [''first''], \<lambda>u. u @ [''second'']]\<rparr>\<rparr>)
          = Some s' \<and> user s' = [''first'', ''second'']) \<and>
   (\<exists>r. registrations (map AddFatalSignalCallback [\<lambda>u. u @ [''first''], \<lambda>u. u @ [''second'']])
           FatalSignalCallbackRegistry_new = Inr r \<and>
      run r ([] :: string list) = []) \<and>
   (\<exists>r. registrations (map AddFatalSignalCallback [\<lambda>u. u @ [''first''], \<lambda>u. u @ [''second'']]
                          @ [InstallFatalSignalCallbacks])
           FatalSignalCallbackRegistry_new = Inr r \<and>
      run r ([] :: string list) = [''first'', ''second''])"
proof -
  let ?cbs = "[\<lambda>u. u @ [''first''], \<lambda>u. u @ [''second'']] :: (string list \<Rightarrow> string list) list"
  let ?off = "example_process\<lparr>gFatalSignalCallbackRegistry :=
               \<lparr>installed' = False, handlers' = ?cbs\<rparr>\<rparr>"
  let ?on = "example_process\<lparr>gFatalSignalCallbackRegistry :=
               \<lparr>installed' = True, handlers' = ?cbs\<rparr>\<rparr>"
  have free: "gSignalThread ?off = kInvalidThreadId" "gSignalThread ?on = kInvalidThreadId"
    by (simp_all add: example_process_def process_initial_def)
  obtain r1 where r1: "registrations (map AddFatalSignalCallback ?cbs)
                         FatalSignalCallbackRegistry_new = Inr r1"
    by (simp add: addFatalSignalCallback_def add_def FatalSignalCallbackRegistry_new_def)
  obtain r2 where r2: "registrations (map AddFatalSignalCallback ?cbs @ [InstallFatalSignalCallbacks])
                         FatalSignalCallbackRegistry_new = Inr r2"
    by (simp add: addFatalSignalCallback_def add_def FatalSignalCallbackRegistry_new_def
        installFatalSignalCallbacks_def markInstalled_def)
  show ?thesis
    using C10_callbacks_only_when_installed
            [where s = ?off and sys = example_os and signum = SIGSEGV and info = example_info
               and cbs = ?cbs and r = r1 and u = "[]"]
          C10_callbacks_only_when_installed
            [where s = ?on and sys = example_os and signum = SIGSEGV and info = example_info
               and cbs = ?cbs and r = r2 and u = "[]"]
          free r1 r2
    by (simp add: example_process_def process_initial_def)
qed

section \<open>Properties of the stack cache\<close>

lemma pages_cover:
  fixes s P :: nat
  assumes "0 < P"
  shows "s \<le> P * ((s + P - 1) div P)"
proof -
  have "s + P - 1 < P + P * ((s + P - 1) div P)"
    using assms by (rule dividend_less_times_div)
  then show ?thesis using assms by simp
qed

lemma ceil_div_nat:
  fixes s P :: nat
  assumes "0 < P"
  shows "nat \<lceil>real s / real P\<rceil> = (s + P - 1) div P"
proof -
  define q where "q = (s + P - 1) div P"
  have up: "s \<le> P * q"
    unfolding q_def using assms by (rule pages_cover)
  have "q * P \<le> s + P - 1"
    unfolding q_def by (rule div_times_less_eq_dividend)
  then have low: "q * P < s + P"
    using assms by simp
  have P: "0 < real P" using assms by simp
  from up have "real s \<le> real P * real q"
    by (metis of_nat_le_iff of_nat_mult)
  then have a: "real s / real P \<le> real_of_int (int q)"
    using P by (simp add: pos_divide_le_eq mult.commute)
  from low have "real q * real P < real s + real P"
    by (metis of_nat_less_iff of_nat_mult of_nat_add)
  then have "(real q - 1) * real P < real s"
    by (simp add: algebra_simps)
  then have b: "real_of_int (int q) - 1 < real s / real P"
    using P by (simp add: pos_less_divide_eq)
  from b a have "\<lceil>real s / real P\<rceil> = int q"
    by (rule ceiling_unique)
  then show ?thesis by (simp add: q_def)
qed

lemma allocSize_unat:
  assumes nz: "pagesize pf \<noteq> 0" and fit: "fits pf S"
  shows "unat (allocSize pf S) =
         unat (pagesize pf) * ((unat S + unat (pagesize pf) - 1) div unat (pagesize pf) + 1)"
proof -
  define P where "P = unat (pagesize pf)"
  define s where "s = unat S"
  define q where "q = (s + P - 1) div P"
  have P: "0 < P" using nz by (simp add: P_def unat_gt_0)
  have bound: "P * (q + 1) < 2 ^ 64"
    using fit by (simp add: fits_def P_def s_def q_def)
  have cover: "s \<le> P * q" unfolding q_def using P by (rule pages_cover)
  then have sP: "s + P < 2 ^ 64" using bound by simp
  have q1: "q + 1 < 2 ^ 64"
  proof -
    have "1 * (q + 1) \<le> P * (q + 1)"
      by (rule mult_le_mono1) (use P in simp)
    with bound show ?thesis by simp
  qed
  have sum: "unat (S + pagesize pf) = s + P"
    using sP unat_add_lem [of S "pagesize pf"] by (simp add: P_def s_def)
  then have "S + pagesize pf \<noteq> 0" using P by (metis add_is_0 less_numeral_extra(3) unat_0)
  then have "unat (S + pagesize pf - 1) = s + P - 1"
    using sum by (simp add: unat_minus_one)
  then have quot: "unat ((S + pagesize pf - 1) div pagesize pf) = q"
    by (simp add: unat_div q_def P_def)
  have quot1: "unat ((S + pagesize pf - 1) div pagesize pf + 1) = q + 1"
    using q1 quot unat_add_lem [of "(S + pagesize pf - 1) div pagesize pf" 1] by simp
  have "unat (pagesize pf * ((S + pagesize pf - 1) div pagesize pf + 1)) = P * (q + 1)"
    using bound quot1 unat_mult_lem [of "pagesize pf" "(S + pagesize pf - 1) div pagesize pf + 1"]
    by (simp add: P_def)
  then show ?thesis by (simp add: allocSize_def P_def s_def q_def)
qed

lemma allocSize_room:
  assumes nz: "pagesize pf \<noteq> 0" and fit: "fits pf S"
  shows "unat S + unat (pagesize pf) \<le> unat (allocSize pf S)"
proof -
  have "0 < unat (pagesize pf)" using nz by (simp add: unat_gt_0)
  from pages_cover [OF this, of "unat S"] show ?thesis
    by (simp add: allocSize_unat [OF nz fit])
qed

lemma aligned_step:
  fixes d a :: nat
  assumes "d mod a = 0" "d < a * n"
  shows "d + a \<le> a * n"
proof -
  from assms(1) obtain k where k: "d = a * k" by (auto simp: mod_eq_0_iff_dvd)
  with assms(2) have "k < n" by (cases "a = 0") auto
  then have "a * (k + 1) \<le> a * n" by (intro mult_le_mono2) simp
  with k show ?thesis by simp
qed

lemma mapping_end:
  assumes "StackCache_inv pf c"
  shows "unat (storage' c + allocSize' c * kNumGuarded) =
         unat (storage' c) + unat (allocSize' c) * unat kNumGuarded"
proof -
  from assms have b: "unat (storage' c) + unat (allocSize' c) * unat kNumGuarded < 2 ^ 64"
    by (simp add: StackCache_inv_def)
  then have "unat (allocSize' c) * unat kNumGuarded < 2 ^ 64" by simp
  then have m: "unat (allocSize' c * kNumGuarded) = unat (allocSize' c) * unat kNumGuarded"
    using unat_mult_lem [of "allocSize' c" kNumGuarded] by simp
  with b show ?thesis
    using unat_add_lem [of "storage' c" "allocSize' c * kNumGuarded"] by simp
qed

lemma slot_bounds:
  assumes inv: "StackCache_inv pf c" and inm: "in_mapping c p" and al: "slot_aligned c p"
  shows "unat (storage' c) \<le> unat p"
    and "unat p + unat (allocSize' c) \<le> unat (storage' c) + unat (allocSize' c) * unat kNumGuarded"
proof -
  from inm have le: "storage' c \<le> p" and lt: "p < storage' c + allocSize' c * kNumGuarded"
    by (auto simp: in_mapping_def)
  from le show lo: "unat (storage' c) \<le> unat p" by (simp add: word_le_nat_alt)
  from lt have hi: "unat p < unat (storage' c) + unat (allocSize' c) * unat kNumGuarded"
    by (simp add: word_less_nat_alt mapping_end [OF inv])
  have d: "unat (p - storage' c) = unat p - unat (storage' c)"
    using le by (rule unat_sub)
  from al have "unat ((p - storage' c) mod allocSize' c) = 0"
    by (simp add: slot_aligned_def)
  then have "(unat p - unat (storage' c)) mod unat (allocSize' c) = 0"
    by (simp add: unat_mod d)
  moreover from hi lo have "unat p - unat (storage' c) < unat (allocSize' c) * unat kNumGuarded"
    by simp
  ultimately have "unat p - unat (storage' c) + unat (allocSize' c)
      \<le> unat (allocSize' c) * unat kNumGuarded"
    by (rule aligned_step)
  with lo show "unat p + unat (allocSize' c)
      \<le> unat (storage' c) + unat (allocSize' c) * unat kNumGuarded"
    by simp
qed

lemma borrow_limit:
  assumes inv: "StackCache_inv pf c" and fit: "fits pf S"
    and cls: "allocSize pf S = allocSize' c"
    and inm: "in_mapping c p" and al: "slot_aligned c p"
  shows "unat (p + allocSize' c - S) = unat p + unat (allocSize' c) - unat S"
    and "p + pagesize pf \<le> p + allocSize' c - S"
    and "p + allocSize' c - S \<noteq> nullptr"
proof -
  from inv have nz: "pagesize pf \<noteq> 0"
    and b: "unat (storage' c) + unat (allocSize' c) * unat kNumGuarded < 2 ^ 64"
    by (simp_all add: StackCache_inv_def)
  have P: "0 < unat (pagesize pf)" using nz by (simp add: unat_gt_0)
  from allocSize_room [OF nz fit] cls
  have room: "unat S + unat (pagesize pf) \<le> unat (allocSize' c)" by simp
  from slot_bounds(2) [OF inv inm al] b
  have top: "unat p + unat (allocSize' c) < 2 ^ 64" by simp
  then have sum: "unat (p + allocSize' c) = unat p + unat (allocSize' c)"
    using unat_add_lem [of p "allocSize' c"] by simp
  have "S \<le> p + allocSize' c"
    using room sum by (simp add: word_le_nat_alt)
  then show lim: "unat (p + allocSize' c - S) = unat p + unat (allocSize' c) - unat S"
    using sum by (simp add: unat_sub)
  have "unat p + unat (pagesize pf) < 2 ^ 64" using top room by simp
  then have "unat (p + pagesize pf) = unat p + unat (pagesize pf)"
    using unat_add_lem [of p "pagesize pf"] by simp
  with lim room show "p + pagesize pf \<le> p + allocSize' c - S"
    by (simp add: word_le_nat_alt)
  from lim room P have "0 < unat (p + allocSize' c - S)" by simp
  then show "p + allocSize' c - S \<noteq> nullptr"
    by (simp add: unat_gt_0 nullptr_def)
qed



lemma tests_freeList [simp]:
  "in_mapping (c\<lparr>freeList' := fl\<rparr>) p = in_mapping c p"
  "slot_aligned (c\<lparr>freeList' := fl\<rparr>) p = slot_aligned c p"
  "in_mapping (c\<lparr>freeList' := fl\<rparr>) = in_mapping c"
  "slot_aligned (c\<lparr>freeList' := fl\<rparr>) = slot_aligned c"
  by (simp_all add: in_mapping_def slot_aligned_def fun_eq_iff)

lemma StackCache_inv_freeList:
  "StackCache_inv pf (c\<lparr>freeList' := fl\<rparr>) \<longleftrightarrow>
   pagesize pf \<noteq> 0 \<and> storage' c \<noteq> nullptr \<and>
   unat (storage' c) + unat (allocSize' c) * unat kNumGuarded < 2 ^ 64 \<and>
   list_all (\<lambda>p. in_mapping c p \<and> slot_aligned c p) fl"
  by (simp add: StackCache_inv_def)

lemma borrow_result:
  assumes inv: "StackCache_inv pf c" and fit: "fits pf S"
  shows "borrow pf c S =
           Inr (if allocSize pf S \<noteq> allocSize' c \<or> freeList' c = [] then (nullptr, c)
                else (last (freeList' c) + allocSize' c - S,
                      c\<lparr>freeList' := butlast (freeList' c)\<rparr>))"
proof (cases "allocSize pf S \<noteq> allocSize' c \<or> freeList' c = []")
  case True
  with inv show ?thesis by (auto simp: borrow_def StackCache_inv_def)
next
  case False
  then have cls: "allocSize pf S = allocSize' c" and ne: "freeList' c \<noteq> []" by auto
  from inv ne have "in_mapping c (last (freeList' c)) \<and> slot_aligned c (last (freeList' c))"
    by (auto simp: StackCache_inv_def list_all_iff)
  then have "last (freeList' c) + pagesize pf \<le> last (freeList' c) + allocSize' c - S"
    using borrow_limit(2) [OF inv fit cls] by blast
  with False inv show ?thesis by (simp add: borrow_def StackCache_inv_def Let_def)
qed

lemma borrow_nonnull:
  assumes inv: "StackCache_inv pf c" and fit: "fits pf S"
    and cls: "allocSize pf S = allocSize' c" and ne: "freeList' c \<noteq> []"
  shows "last (freeList' c) + allocSize' c - S \<noteq> nullptr"
    and "unat (last (freeList' c) + allocSize' c - S) + unat S =
           unat (last (freeList' c)) + unat (allocSize' c)"
    and "unat (last (freeList' c)) + unat (pagesize pf)
           \<le> unat (last (freeList' c) + allocSize' c - S)"
proof -
  from inv have nz: "pagesize pf \<noteq> 0" by (simp add: StackCache_inv_def)
  from inv ne have slot: "in_mapping c (last (freeList' c))" "slot_aligned c (last (freeList' c))"
    by (auto simp: StackCache_inv_def list_all_iff)
  from allocSize_room [OF nz fit] cls
  have room: "unat S + unat (pagesize pf) \<le> unat (allocSize' c)" by simp
  from borrow_limit(3) [OF inv fit cls slot]
  show "last (freeList' c) + allocSize' c - S \<noteq> nullptr" .
  from borrow_limit(1) [OF inv fit cls slot] room
  show "unat (last (freeList' c) + allocSize' c - S) + unat S =
           unat (last (freeList' c)) + unat (allocSize' c)"
    by simp
  from borrow_limit(1) [OF inv fit cls slot] room
  show "unat (last (freeList' c)) + unat (pagesize pf)
           \<le> unat (last (freeList' c) + allocSize' c - S)"
    by simp
qed

lemma borrow_keeps_inv:
  assumes inv: "StackCache_inv pf c" and ret: "borrow pf c S = Inr (r, c')"
  shows "StackCache_inv pf c' \<and> storage' c' = storage' c \<and> allocSize' c' = allocSize' c"
proof -
  have sub: "list_all Q (butlast xs)" if "list_all Q xs" for Q :: "addr \<Rightarrow> bool" and xs
    using that by (auto simp: list_all_iff dest: in_set_butlastD)
  from ret have "c' = c \<or> c' = c\<lparr>freeList' := butlast (freeList' c)\<rparr>"
    by (auto simp: borrow_def Let_def split: if_splits)
  with inv show ?thesis
    by (auto simp: StackCache_inv_def intro: sub)
qed


lemma slot_aligned_nat:
  assumes "storage' c \<le> p"
  shows "slot_aligned c p \<longleftrightarrow> (unat p - unat (storage' c)) mod unat (allocSize' c) = 0"
proof -
  have "slot_aligned c p \<longleftrightarrow> unat ((p - storage' c) mod allocSize' c) = 0"
    by (simp add: slot_aligned_def unat_eq_zero)
  then show ?thesis by (simp add: unat_mod unat_sub [OF assms])
qed

lemma giveBack_result:
  assumes "storage' c \<noteq> nullptr"
  shows "giveBack pf c limit S =
     (if \<not> in_mapping c (limit + S - allocSize pf S) then Inr (False, c)
      else if assertions pf \<and> allocSize pf S \<noteq> allocSize' c
      then Inl (AssertionFailed ''as == allocSize_'')
      else if assertions pf \<and> \<not> slot_aligned c (limit + S - allocSize pf S)
      then Inl (AssertionFailed ''(p - storage_) % allocSize_ == 0'')
      else Inr (True, c\<lparr>freeList' := freeList' c @ [limit + S - allocSize pf S]\<rparr>))"
  using assms by (simp add: giveBack_def in_mapping_def slot_aligned_def Let_def)

lemma giveBack_keeps_mapping:
  assumes "giveBack pf c limit S = Inr (b, c')"
    and "list_all (in_mapping c) (freeList' c)"
  shows "list_all (in_mapping c') (freeList' c') \<and>
         storage' c' = storage' c \<and> allocSize' c' = allocSize' c"
  using assms
  by (auto simp: giveBack_def Let_def in_mapping_def list_all_iff split: if_splits)

lemma giveBack_keeps_aligned:
  assumes "giveBack pf c limit S = Inr (b, c')" and "assertions pf"
    and "list_all (slot_aligned c) (freeList' c)"
  shows "list_all (slot_aligned c') (freeList' c')"
proof -
  from assms(1,2) have "c' = c \<or>
      (c' = c\<lparr>freeList' := freeList' c @ [limit + S - allocSize pf S]\<rparr> \<and>
       slot_aligned c (limit + S - allocSize pf S))"
    by (auto simp: giveBack_def Let_def slot_aligned_def split: if_splits)
  with assms(3) show ?thesis by auto
qed

lemma protect_slots_ok:
  "\<forall>i \<in> set is. mprotect sys (storage + as * i) (pagesize pf) = 0 \<Longrightarrow>
   protect_slots pf sys storage as is fl = Inr (fl @ map (\<lambda>i. storage + as * i) is)"
  by (induction "is" arbitrary: fl) simp_all

lemma protect_slots_fails:
  "\<exists>i \<in> set is. mprotect sys (storage + as * i) (pagesize pf) \<noteq> 0 \<Longrightarrow>
   \<exists>msg. protect_slots pf sys storage as is fl = Inl (PCheckFailed msg)"
  by (induction "is" arbitrary: fl) auto

lemma StackCache_new_ok:
  assumes "mmap sys (allocSize pf S * kNumGuarded) \<noteq> MAP_FAILED"
    and "\<forall>i < unat kNumGuarded.
           mprotect sys (mmap sys (allocSize pf S * kNumGuarded) + allocSize pf S * of_nat i)
             (pagesize pf) = 0"
  shows "StackCache_new pf sys S =
           Inr \<lparr>storage' = mmap sys (allocSize pf S * kNumGuarded),
                allocSize' = allocSize pf S,
                freeList' = map (\<lambda>i. mmap sys (allocSize pf S * kNumGuarded)
                                       + allocSize pf S * of_nat i) [0..<unat kNumGuarded]\<rparr>"
proof -
  have "protect_slots pf sys (mmap sys (allocSize pf S * kNumGuarded)) (allocSize pf S)
          (map of_nat [0..<unat kNumGuarded]) []
        = Inr ([] @ map (\<lambda>i. mmap sys (allocSize pf S * kNumGuarded) + allocSize pf S * i)
                      (map of_nat [0..<unat kNumGuarded]))"
    by (rule protect_slots_ok) (use assms(2) in auto)
  with assms(1) show ?thesis
    by (simp add: StackCache_new_def Let_def comp_def)
qed

lemma fresh_slot:
  assumes nz: "pagesize pf \<noteq> 0" and fit: "fits pf S"
    and b: "unat base + unat (allocSize pf S) * unat kNumGuarded < 2 ^ 64"
    and i: "i < unat kNumGuarded"
    and c: "storage' c = base" "allocSize' c = allocSize pf S"
  shows "in_mapping c (base + allocSize pf S * of_nat i) \<and>
         slot_aligned c (base + allocSize pf S * of_nat i)"
proof -
  let ?as = "allocSize pf S"
  have k: "unat kNumGuarded = 100" by (simp add: kNumGuarded_def)
  have "0 < unat (pagesize pf)" using nz by (simp add: unat_gt_0)
  with allocSize_room [OF nz fit] have as: "0 < unat ?as" by simp
  have ui: "unat (of_nat i :: size_t) = i"
    using i k by (simp add: unat_of_nat)
  have le: "unat ?as * i < unat ?as * unat kNumGuarded"
    using i as by simp
  with b have "unat ?as * i < 2 ^ 64" by linarith
  then have prod: "unat (?as * of_nat i) = unat ?as * i"
    using unat_mult_lem [of ?as "of_nat i"] ui by simp
  from le b have "unat base + unat ?as * i < 2 ^ 64" by linarith
  then have sum: "unat (base + ?as * of_nat i) = unat base + unat ?as * i"
    using unat_add_lem [of base "?as * of_nat i"] prod by simp
  have mend: "unat (base + ?as * kNumGuarded) = unat base + unat ?as * unat kNumGuarded"
  proof -
    from b have "unat ?as * unat kNumGuarded < 2 ^ 64" by simp
    then have "unat (?as * kNumGuarded) = unat ?as * unat kNumGuarded"
      using unat_mult_lem [of ?as kNumGuarded] by simp
    with b show ?thesis using unat_add_lem [of base "?as * kNumGuarded"] by simp
  qed
  have inm: "in_mapping c (base + ?as * of_nat i)"
    using sum le mend c by (simp add: in_mapping_def word_less_nat_alt word_le_nat_alt not_less not_le)
  have "unat ((?as * of_nat i) mod ?as) = 0"
    by (simp add: unat_mod prod)
  then have "slot_aligned c (base + ?as * of_nat i)"
    using c by (simp add: slot_aligned_def unat_eq_zero)
  with inm show ?thesis by simp
qed

lemma StackCache_new_inv:
  assumes nz: "pagesize pf \<noteq> 0" and fit: "fits pf S"
    and ok: "mmap sys (allocSize pf S * kNumGuarded) \<noteq> MAP_FAILED"
    and nn: "mmap sys (allocSize pf S * kNumGuarded) \<noteq> nullptr"
    and b: "unat (mmap sys (allocSize pf S * kNumGuarded))
              + unat (allocSize pf S) * unat kNumGuarded < 2 ^ 64"
    and prot: "\<forall>i < unat kNumGuarded.
           mprotect sys (mmap sys (allocSize pf S * kNumGuarded) + allocSize pf S * of_nat i)
             (pagesize pf) = 0"
  shows "\<exists>c. StackCache_new pf sys S = Inr c \<and> StackCache_inv pf c \<and>
             allocSize' c = allocSize pf S \<and> length (freeList' c) = unat kNumGuarded"
proof -
  let ?base = "mmap sys (allocSize pf S * kNumGuarded)"
  let ?c = "\<lparr>storage' = ?base, allocSize' = allocSize pf S,
             freeList' = map (\<lambda>i. ?base + allocSize pf S * of_nat i) [0..<unat kNumGuarded]\<rparr>"
  have new: "StackCache_new pf sys S = Inr ?c"
    using ok prot by (rule StackCache_new_ok)
  have "in_mapping ?c (?base + allocSize pf S * of_nat i) \<and>
        slot_aligned ?c (?base + allocSize pf S * of_nat i)" if "i < unat kNumGuarded" for i
    using nz fit b that by (rule fresh_slot) simp_all
  then have "list_all (\<lambda>p. in_mapping ?c p \<and> slot_aligned ?c p) (freeList' ?c)"
    by (simp add: list_all_iff)
  with nz nn b have "StackCache_inv pf ?c"
    by (simp add: StackCache_inv_def)
  with new show ?thesis by simp
qed

text \<open>
  C4, as stated, fails where the arithmetic of \<open>size_t\<close> wraps: with 4096-byte pages and
  a requested size of \<open>2^64 - 4096\<close> the formula gives \<open>2^64\<close>, and \<open>allocSize\<close> gives 0.
\<close>

theorem C4_allocSize_wraps_counterexample:
  "allocSize example_platform 0xFFFFFFFFFFFFF000 = 0 \<and>
   unat (pagesize example_platform)
     * (nat \<lceil>real (unat (0xFFFFFFFFFFFFF000 :: size_t)) / real (unat (pagesize example_platform))\<rceil> + 1)
     = 2 ^ 64"
proof -
  have "allocSize example_platform 0xFFFFFFFFFFFFF000 = 0"
    by (simp add: allocSize_def example_platform_def)
  moreover have "nat \<lceil>real (unat (0xFFFFFFFFFFFFF000 :: size_t)) / real (unat (4096 :: size_t))\<rceil>
      = (unat (0xFFFFFFFFFFFFF000 :: size_t) + unat (4096 :: size_t) - 1) div unat (4096 :: size_t)"
    by (rule ceil_div_nat) simp
  ultimately show ?thesis by (simp add: example_platform_def)
qed

text \<open>
  C4, amended. For every page size \<open>P > 0\<close> and requested size \<open>S\<close> for which
  \<open>P * (ceil(S/P) + 1)\<close> is below \<open>2^64\<close>, \<open>allocSize(S)\<close> is that number. For such
  a size, \<open>borrow\<close> on a pool that satisfies the pool invariant returns: the null pointer,
  with the pool unchanged, if and only if \<open>allocSize(S)\<close> differs from the pool's size
  class or the free list is empty; and otherwise the last slot base of the free list,
  removed from it, plus \<open>allocSize - S\<close>. The \<open>S\<close> bytes from the returned address end
  at the end of the slot, and the slot's first page lies entirely below the returned
  address.
\<close>

theorem C4_allocSize_and_borrow:
  "pagesize pf \<noteq> 0 \<and>
   unat (pagesize pf) * (nat \<lceil>real (unat S) / real (unat (pagesize pf))\<rceil> + 1) < 2 ^ 64 \<longrightarrow>
     unat (allocSize pf S)
       = unat (pagesize pf) * (nat \<lceil>real (unat S) / real (unat (pagesize pf))\<rceil> + 1) \<and>
     (StackCache_inv pf c \<longrightarrow>
        (\<exists>r c'. borrow pf c S = Inr (r, c') \<and>
           (r = nullptr \<longleftrightarrow> allocSize pf S \<noteq> allocSize' c \<or> freeList' c = []) \<and>
           (r = nullptr \<longrightarrow> c' = c) \<and>
           (r \<noteq> nullptr \<longrightarrow>
              r = last (freeList' c) + allocSize' c - S \<and>
              c' = c\<lparr>freeList' := butlast (freeList' c)\<rparr> \<and>
              unat r + unat S = unat (last (freeList' c)) + unat (allocSize' c) \<and>
              unat (last (freeList' c)) + unat (pagesize pf) \<le> unat r)))"
proof (intro impI, elim conjE)
  assume nz: "pagesize pf \<noteq> 0"
    and bound: "unat (pagesize pf) * (nat \<lceil>real (unat S) / real (unat (pagesize pf))\<rceil> + 1) < 2 ^ 64"
  have P: "0 < unat (pagesize pf)" using nz by (simp add: unat_gt_0)
  note ceil = ceil_div_nat [OF P, of "unat S"]
  have fit: "fits pf S" unfolding fits_def ceil [symmetric] using bound .
  have formula: "unat (allocSize pf S)
       = unat (pagesize pf) * (nat \<lceil>real (unat S) / real (unat (pagesize pf))\<rceil> + 1)"
    unfolding ceil using allocSize_unat [OF nz fit] .
  have pool: "\<exists>r c'. borrow pf c S = Inr (r, c') \<and>
           (r = nullptr \<longleftrightarrow> allocSize pf S \<noteq> allocSize' c \<or> freeList' c = []) \<and>
           (r = nullptr \<longrightarrow> c' = c) \<and>
           (r \<noteq> nullptr \<longrightarrow>
              r = last (freeList' c) + allocSize' c - S \<and>
              c' = c\<lparr>freeList' := butlast (freeList' c)\<rparr> \<and>
              unat r + unat S = unat (last (freeList' c)) + unat (allocSize' c) \<and>
              unat (last (freeList' c)) + unat (pagesize pf) \<le> unat r)"
    if inv: "StackCache_inv pf c"
  proof (cases "allocSize pf S \<noteq> allocSize' c \<or> freeList' c = []")
    case True
    with borrow_result [OF inv fit] show ?thesis by simp
  next
    case False
    then have cls: "allocSize pf S = allocSize' c" and ne: "freeList' c \<noteq> []" by auto
    from borrow_result [OF inv fit] False
    have "borrow pf c S = Inr (last (freeList' c) + allocSize' c - S,
                               c\<lparr>freeList' := butlast (freeList' c)\<rparr>)"
      by simp
    with borrow_nonnull [OF inv fit cls ne] cls ne show ?thesis by simp
  qed
  from formula pool
  show "unat (allocSize pf S)
       = unat (pagesize pf) * (nat \<lceil>real (unat S) / real (unat (pagesize pf))\<rceil> + 1) \<and>
     (StackCache_inv pf c \<longrightarrow>
        (\<exists>r c'. borrow pf c S = Inr (r, c') \<and>
           (r = nullptr \<longleftrightarrow> allocSize pf S \<noteq> allocSize' c \<or> freeList' c = []) \<and>
           (r = nullptr \<longrightarrow> c' = c) \<and>
           (r \<noteq> nullptr \<longrightarrow>
              r = last (freeList' c) + allocSize' c - S \<and>
              c' = c\<lparr>freeList' := butlast (freeList' c)\<rparr> \<and>
              unat r + unat S = unat (last (freeList' c)) + unat (allocSize' c) \<and>
              unat (last (freeList' c)) + unat (pagesize pf) \<le> unat r)))"
    by blast
qed

lemma example_cache_new:
  "StackCache_new example_platform example_vm 8192 = Inr example_cache"
  by code_simp


lemma example_allocSize: "allocSize example_platform 8192 = 12288"
  by (simp add: allocSize_def example_platform_def)

lemma example_fits: "fits example_platform 8192"
  by (simp add: fits_def example_platform_def)

lemma example_cache_inv: "StackCache_inv example_platform example_cache"
proof -
  have "\<exists>c. StackCache_new example_platform example_vm 8192 = Inr c \<and>
          StackCache_inv example_platform c \<and>
          allocSize' c = allocSize example_platform 8192 \<and>
          length (freeList' c) = unat kNumGuarded"
  proof (rule StackCache_new_inv)
    show "pagesize example_platform \<noteq> 0" by (simp add: example_platform_def)
    show "fits example_platform 8192" by (rule example_fits)
    show "mmap example_vm (allocSize example_platform 8192 * kNumGuarded) \<noteq> MAP_FAILED"
      by (simp add: example_vm_def MAP_FAILED_def)
    show "mmap example_vm (allocSize example_platform 8192 * kNumGuarded) \<noteq> nullptr"
      by (simp add: example_vm_def nullptr_def)
    show "unat (mmap example_vm (allocSize example_platform 8192 * kNumGuarded))
            + unat (allocSize example_platform 8192) * unat kNumGuarded < 2 ^ 64"
      by (simp add: example_vm_def example_allocSize kNumGuarded_def)
    show "\<forall>i < unat kNumGuarded.
           mprotect example_vm
             (mmap example_vm (allocSize example_platform 8192 * kNumGuarded)
                + allocSize example_platform 8192 * of_nat i)
             (pagesize example_platform) = 0"
      by (simp add: example_vm_def)
  qed
  then show ?thesis by (simp add: example_cache_new)
qed

lemma example_cache_fields:
  "storage' example_cache = 0x10000000"
  "allocSize' example_cache = 12288"
  "freeList' example_cache \<noteq> []"
  "last (freeList' example_cache) = 0x10129000"
  "length (freeList' example_cache) = 100"
  by (simp_all add: example_cache_def last_map)

theorem C4_allocSize_and_borrow_witness:
  "unat (allocSize example_platform 8192) = 4096 * (nat \<lceil>real 8192 / real 4096\<rceil> + 1) \<and>
   unat (allocSize example_platform 8192) = 12288 \<and>
   borrow example_platform example_cache 8192
     = Inr (0x1012A000, example_cache\<lparr>freeList' := butlast (freeList' example_cache)\<rparr>) \<and>
   last (freeList' example_cache) = 0x10129000 \<and>
   borrow example_platform (example_cache\<lparr>freeList' := []\<rparr>) 8192
     = Inr (nullptr, example_cache\<lparr>freeList' := []\<rparr>) \<and>
   borrow example_platform example_cache 4096 = Inr (nullptr, example_cache)"
proof -
  have nz: "pagesize example_platform \<noteq> 0" by (simp add: example_platform_def)
  have ps: "unat (pagesize example_platform) = 4096" by (simp add: example_platform_def)
  have c2: "nat \<lceil>real (unat (8192 :: size_t)) / real (unat (pagesize example_platform))\<rceil> = 2"
    by (simp add: ps ceil_div_nat)
  have c1: "nat \<lceil>real (unat (4096 :: size_t)) / real (unat (pagesize example_platform))\<rceil> = 1"
    by (simp add: ps ceil_div_nat)
  have b2: "unat (pagesize example_platform)
      * (nat \<lceil>real (unat (8192 :: size_t)) / real (unat (pagesize example_platform))\<rceil> + 1) < 2 ^ 64"
    unfolding c2 ps by simp
  have b1: "unat (pagesize example_platform)
      * (nat \<lceil>real (unat (4096 :: size_t)) / real (unat (pagesize example_platform))\<rceil> + 1) < 2 ^ 64"
    unfolding c1 ps by simp
  have inv0: "StackCache_inv example_platform (example_cache\<lparr>freeList' := []\<rparr>)"
    using example_cache_inv by (simp add: StackCache_inv_def)
  have small: "allocSize example_platform 4096 \<noteq> allocSize' example_cache"
    by (simp add: allocSize_def example_platform_def example_cache_def)
  have a: "unat (allocSize example_platform 8192) = 4096 * (nat \<lceil>real 8192 / real 4096\<rceil> + 1)"
    using C4_allocSize_and_borrow [of example_platform 8192 example_cache] nz b2
    by (simp add: ps)
  have b: "borrow example_platform example_cache 8192
     = Inr (0x1012A000, example_cache\<lparr>freeList' := butlast (freeList' example_cache)\<rparr>)"
    using C4_allocSize_and_borrow [of example_platform 8192 example_cache] nz b2
      example_cache_inv example_allocSize example_cache_fields
    by auto
  have c: "borrow example_platform (example_cache\<lparr>freeList' := []\<rparr>) 8192
     = Inr (nullptr, example_cache\<lparr>freeList' := []\<rparr>)"
    using C4_allocSize_and_borrow [of example_platform 8192 "example_cache\<lparr>freeList' := []\<rparr>"]
      nz b2 inv0
    by auto
  have d: "borrow example_platform example_cache 4096 = Inr (nullptr, example_cache)"
    using C4_allocSize_and_borrow [of example_platform 4096 example_cache] nz b1
      example_cache_inv small
    by auto
  from a b c d example_allocSize example_cache_fields(4) show ?thesis by simp
qed




lemma tracked_inv_borrow:
  assumes inv: "tracked_inv pf t" and fit: "fits pf S"
  shows "\<exists>r t'. cache_step pf (Borrow S) t = Inr (r, t') \<and> tracked_inv pf t' \<and>
           storage' (pool t') = storage' (pool t) \<and> allocSize' (pool t') = allocSize' (pool t)"
proof -
  let ?c = "pool t"
  from inv have cinv: "StackCache_inv pf ?c"
    and count: "length (freeList' ?c) + length (borrowed t) = unat kNumGuarded"
    and held: "list_all (\<lambda>(limit, size').
                 fits pf size' \<and> allocSize pf size' = allocSize' ?c \<and>
                 in_mapping ?c (limit + size' - allocSize pf size') \<and>
                 slot_aligned ?c (limit + size' - allocSize pf size')) (borrowed t)"
    by (simp_all add: tracked_inv_def)
  show ?thesis
  proof (cases "allocSize pf S \<noteq> allocSize' ?c \<or> freeList' ?c = []")
    case True
    with borrow_result [OF cinv fit] have "borrow pf ?c S = Inr (nullptr, ?c)" by simp
    with inv show ?thesis by (simp add: tracked_inv_def)
  next
    case False
    then have cls: "allocSize pf S = allocSize' ?c" and ne: "freeList' ?c \<noteq> []" by auto
    let ?r = "last (freeList' ?c) + allocSize' ?c - S"
    let ?c' = "?c\<lparr>freeList' := butlast (freeList' ?c)\<rparr>"
    from borrow_result [OF cinv fit] False
    have ret: "borrow pf ?c S = Inr (?r, ?c')" by simp
    have nonnull: "?r \<noteq> nullptr" by (rule borrow_nonnull(1) [OF cinv fit cls ne])
    from borrow_keeps_inv [OF cinv ret] have cinv': "StackCache_inv pf ?c'" by simp
    from cinv ne have slot: "in_mapping ?c (last (freeList' ?c))" "slot_aligned ?c (last (freeList' ?c))"
      by (auto simp: StackCache_inv_def list_all_iff)
    have slotbase: "?r + S - allocSize pf S = last (freeList' ?c)"
      by (simp add: cls)
    from ne count have count': "length (freeList' ?c') + length ((?r, S) # borrowed t) = unat kNumGuarded"
      by (cases "freeList' ?c" rule: rev_cases) simp_all
    from held have held': "list_all (\<lambda>(limit, size').
                 fits pf size' \<and> allocSize pf size' = allocSize' ?c' \<and>
                 in_mapping ?c' (limit + size' - allocSize pf size') \<and>
                 slot_aligned ?c' (limit + size' - allocSize pf size')) (borrowed t)"
      by simp
    have "tracked_inv pf \<lparr>pool = ?c', borrowed = (?r, S) # borrowed t\<rparr>"
      unfolding tracked_inv_def using cinv' count' held' fit cls slot slotbase by simp
    with ret nonnull show ?thesis by simp
  qed
qed

lemma tracked_inv_giveBack:
  assumes inv: "tracked_inv pf t" and mem: "(limit, S) \<in> set (borrowed t)"
  shows "cache_step pf (GiveBack limit S) t =
           Inr (GaveBack True,
                \<lparr>pool = (pool t)\<lparr>freeList' := freeList' (pool t) @ [limit + S - allocSize pf S]\<rparr>,
                 borrowed = remove1 (limit, S) (borrowed t)\<rparr>) \<and>
         tracked_inv pf
           \<lparr>pool = (pool t)\<lparr>freeList' := freeList' (pool t) @ [limit + S - allocSize pf S]\<rparr>,
            borrowed = remove1 (limit, S) (borrowed t)\<rparr>"
proof -
  let ?c = "pool t"
  let ?p = "limit + S - allocSize pf S"
  from inv have cinv: "StackCache_inv pf ?c"
    and count: "length (freeList' ?c) + length (borrowed t) = unat kNumGuarded"
    and held: "list_all (\<lambda>(limit, size').
                 fits pf size' \<and> allocSize pf size' = allocSize' ?c \<and>
                 in_mapping ?c (limit + size' - allocSize pf size') \<and>
                 slot_aligned ?c (limit + size' - allocSize pf size')) (borrowed t)"
    by (simp_all add: tracked_inv_def)
  from held mem have cls: "allocSize pf S = allocSize' ?c"
    and slot: "in_mapping ?c ?p" "slot_aligned ?c ?p"
    by (auto simp: list_all_iff)
  from cinv have nn: "storage' ?c \<noteq> nullptr" by (simp add: StackCache_inv_def)
  have ret: "giveBack pf ?c limit S = Inr (True, ?c\<lparr>freeList' := freeList' ?c @ [?p]\<rparr>)"
    using giveBack_result [OF nn, of pf limit S] cls slot by simp
  have cinv': "StackCache_inv pf (?c\<lparr>freeList' := freeList' ?c @ [?p]\<rparr>)"
    using cinv slot by (simp add: StackCache_inv_def)
  from mem have "length (remove1 (limit, S) (borrowed t)) + 1 = length (borrowed t)"
    by (simp add: length_remove1) (metis One_nat_def Suc_pred length_pos_if_in_set)
  with count have count': "length (freeList' ?c @ [?p]) + length (remove1 (limit, S) (borrowed t))
      = unat kNumGuarded"
    by simp
  have held': "list_all (\<lambda>(limit, size').
                 fits pf size' \<and> allocSize pf size' = allocSize' ?c \<and>
                 in_mapping ?c (limit + size' - allocSize pf size') \<and>
                 slot_aligned ?c (limit + size' - allocSize pf size'))
               (remove1 (limit, S) (borrowed t))"
    using held by (auto simp: list_all_iff dest: notin_set_remove1)
  have "tracked_inv pf \<lparr>pool = ?c\<lparr>freeList' := freeList' ?c @ [?p]\<rparr>,
                         borrowed = remove1 (limit, S) (borrowed t)\<rparr>"
    unfolding tracked_inv_def using cinv' count' held' by simp
  with ret show ?thesis by simp
qed

lemma tracked_inv_step:
  assumes "tracked_inv pf t" and "op_conforms pf t x"
  shows "\<exists>r t'. cache_step pf x t = Inr (r, t') \<and> tracked_inv pf t' \<and>
           storage' (pool t') = storage' (pool t) \<and> allocSize' (pool t') = allocSize' (pool t)"
proof (cases x)
  case (Borrow S)
  with assms show ?thesis using tracked_inv_borrow [of pf t S] by simp
next
  case (GiveBack limit S)
  with assms tracked_inv_giveBack [of pf t limit S] show ?thesis by simp
qed

lemma tracked_inv_run:
  assumes "tracked_inv pf t" and "conforming pf ops t"
  shows "\<exists>rs t'. cache_run pf ops t = Inr (rs, t') \<and> tracked_inv pf t' \<and>
           storage' (pool t') = storage' (pool t) \<and> allocSize' (pool t') = allocSize' (pool t)"
  using assms
proof (induction ops arbitrary: t)
  case Nil
  then show ?case by simp
next
  case (Cons x xs)
  from Cons.prems have ok: "op_conforms pf t x" by simp
  from tracked_inv_step [OF Cons.prems(1) ok] obtain r t1 where
    step: "cache_step pf x t = Inr (r, t1)" and inv1: "tracked_inv pf t1"
    and same: "storage' (pool t1) = storage' (pool t)" "allocSize' (pool t1) = allocSize' (pool t)"
    by blast
  from Cons.prems(2) step have "conforming pf xs t1" by simp
  from Cons.IH [OF inv1 this] obtain rs t' where
    "cache_run pf xs t1 = Inr (rs, t')" "tracked_inv pf t'"
    "storage' (pool t') = storage' (pool t1)" "allocSize' (pool t') = allocSize' (pool t1)"
    by blast
  with step same show ?case by simp
qed


lemma borrow_shrinks:
  assumes "borrow pf c S = Inr (r, c')"
  shows "set (freeList' c') \<subseteq> set (freeList' c) \<and>
         storage' c' = storage' c \<and> allocSize' c' = allocSize' c"
  using assms
  by (auto simp: borrow_def Let_def split: if_splits dest: in_set_butlastD)

lemma tests_depend:
  assumes "storage' c' = storage' c" "allocSize' c' = allocSize' c"
  shows "in_mapping c' = in_mapping c" "slot_aligned c' = slot_aligned c"
  using assms by (simp_all add: in_mapping_def slot_aligned_def fun_eq_iff)

lemma cache_step_keeps_mapping:
  assumes "cache_step pf x t = Inr (r, t')"
    and "list_all (in_mapping (pool t)) (freeList' (pool t))"
  shows "list_all (in_mapping (pool t')) (freeList' (pool t')) \<and>
         storage' (pool t') = storage' (pool t) \<and> allocSize' (pool t') = allocSize' (pool t)"
proof (cases x)
  case (Borrow S)
  obtain p c' where b: "borrow pf (pool t) S = Inr (p, c')" and c': "pool t' = c'"
  proof (cases "borrow pf (pool t) S")
    case (Inl e)
    with assms(1) Borrow show ?thesis by simp
  next
    case (Inr pc)
    obtain p c' where pc: "pc = (p, c')" by (cases pc)
    from assms(1) Borrow Inr pc have "pool t' = c'" by (cases t') simp
    with Inr pc that show ?thesis by simp
  qed
  from borrow_shrinks [OF b] c' have sub: "set (freeList' (pool t')) \<subseteq> set (freeList' (pool t))"
    and same: "storage' (pool t') = storage' (pool t)" "allocSize' (pool t') = allocSize' (pool t)"
    by simp_all
  from tests_depend(1) [OF same] sub assms(2) same show ?thesis
    by (auto simp: list_all_iff)
next
  case (GiveBack limit S)
  obtain b c' where g: "giveBack pf (pool t) limit S = Inr (b, c')" and c': "pool t' = c'"
  proof (cases "giveBack pf (pool t) limit S")
    case (Inl e)
    with assms(1) GiveBack show ?thesis by simp
  next
    case (Inr bc)
    obtain b c' where bc: "bc = (b, c')" by (cases bc)
    from assms(1) GiveBack Inr bc have "pool t' = c'" by (cases t') simp
    with Inr bc that show ?thesis by simp
  qed
  from giveBack_keeps_mapping [OF g assms(2)] c' show ?thesis by simp
qed

lemma cache_step_keeps_aligned:
  assumes "cache_step pf x t = Inr (r, t')" and "assertions pf"
    and "list_all (slot_aligned (pool t)) (freeList' (pool t))"
  shows "list_all (slot_aligned (pool t')) (freeList' (pool t'))"
proof (cases x)
  case (Borrow S)
  obtain p c' where b: "borrow pf (pool t) S = Inr (p, c')" and c': "pool t' = c'"
  proof (cases "borrow pf (pool t) S")
    case (Inl e)
    with assms(1) Borrow show ?thesis by simp
  next
    case (Inr pc)
    obtain p c' where pc: "pc = (p, c')" by (cases pc)
    from assms(1) Borrow Inr pc have "pool t' = c'" by (cases t') simp
    with Inr pc that show ?thesis by simp
  qed
  from borrow_shrinks [OF b] c' have sub: "set (freeList' (pool t')) \<subseteq> set (freeList' (pool t))"
    and same: "storage' (pool t') = storage' (pool t)" "allocSize' (pool t') = allocSize' (pool t)"
    by simp_all
  from tests_depend(2) [OF same] sub assms(3) show ?thesis
    by (auto simp: list_all_iff)
next
  case (GiveBack limit S)
  obtain b c' where g: "giveBack pf (pool t) limit S = Inr (b, c')" and c': "pool t' = c'"
  proof (cases "giveBack pf (pool t) limit S")
    case (Inl e)
    with assms(1) GiveBack show ?thesis by simp
  next
    case (Inr bc)
    obtain b c' where bc: "bc = (b, c')" by (cases bc)
    from assms(1) GiveBack Inr bc have "pool t' = c'" by (cases t') simp
    with Inr bc that show ?thesis by simp
  qed
  from giveBack_keeps_aligned [OF g assms(2,3)] c' show ?thesis by simp
qed

lemma cache_run_keeps_mapping:
  assumes "cache_run pf ops t = Inr (rs, t')"
    and "list_all (in_mapping (pool t)) (freeList' (pool t))"
  shows "list_all (in_mapping (pool t')) (freeList' (pool t'))"
  using assms
proof (induction ops arbitrary: t rs)
  case Nil
  then show ?case by simp
next
  case (Cons x xs)
  from Cons.prems(1) obtain r t1 rs1 where step: "cache_step pf x t = Inr (r, t1)"
    and rest: "cache_run pf xs t1 = Inr (rs1, t')"
    by (auto split: sum.splits)
  from cache_step_keeps_mapping [OF step Cons.prems(2)]
  have "list_all (in_mapping (pool t1)) (freeList' (pool t1))" by simp
  with rest show ?case by (rule Cons.IH)
qed

lemma cache_run_keeps_aligned:
  assumes "cache_run pf ops t = Inr (rs, t')" and "assertions pf"
    and "list_all (slot_aligned (pool t)) (freeList' (pool t))"
  shows "list_all (slot_aligned (pool t')) (freeList' (pool t'))"
  using assms
proof (induction ops arbitrary: t rs)
  case Nil
  then show ?case by simp
next
  case (Cons x xs)
  from Cons.prems(1) obtain r t1 rs1 where step: "cache_step pf x t = Inr (r, t1)"
    and rest: "cache_run pf xs t1 = Inr (rs1, t')"
    by (auto split: sum.splits)
  from cache_step_keeps_aligned [OF step Cons.prems(2,3)]
  have "list_all (slot_aligned (pool t1)) (freeList' (pool t1))" .
  with rest Cons.prems(2) show ?case by (intro Cons.IH)
qed

lemma borrow_all:
  assumes "StackCache_inv pf c" and "fits pf S" and "allocSize pf S = allocSize' c"
    and "length (freeList' c) = n"
  shows "\<exists>rs t'. cache_run pf (replicate n (Borrow S)) \<lparr>pool = c, borrowed = bs\<rparr>
                    = Inr (map Borrowed rs, t') \<and>
           length rs = n \<and> nullptr \<notin> set rs \<and> freeList' (pool t') = [] \<and>
           length (borrowed t') = length bs + n \<and>
           borrow pf (pool t') S = Inr (nullptr, pool t')"
  using assms
proof (induction n arbitrary: c bs)
  case 0
  then have "borrow pf c S = Inr (nullptr, c)"
    using borrow_result [of pf c S] by simp
  with 0 show ?case by simp
next
  case (Suc n)
  let ?r = "last (freeList' c) + allocSize' c - S"
  let ?c' = "c\<lparr>freeList' := butlast (freeList' c)\<rparr>"
  from Suc.prems(4) have ne: "freeList' c \<noteq> []" by auto
  from borrow_result [OF Suc.prems(1,2)] Suc.prems(3) ne
  have ret: "borrow pf c S = Inr (?r, ?c')" by simp
  have nonnull: "?r \<noteq> nullptr" by (rule borrow_nonnull(1) [OF Suc.prems(1,2,3) ne])
  from borrow_keeps_inv [OF Suc.prems(1) ret] have inv': "StackCache_inv pf ?c'" by simp
  from Suc.prems(3) have cls': "allocSize pf S = allocSize' ?c'" by simp
  from Suc.prems(4) have len': "length (freeList' ?c') = n" by simp
  from Suc.IH [OF inv' Suc.prems(2) cls' len', of "(?r, S) # bs"]
  obtain rs t' where run: "cache_run pf (replicate n (Borrow S))
        \<lparr>pool = ?c', borrowed = (?r, S) # bs\<rparr> = Inr (map Borrowed rs, t')"
    and props: "length rs = n" "nullptr \<notin> set rs" "freeList' (pool t') = []"
      "length (borrowed t') = length ((?r, S) # bs) + n"
      "borrow pf (pool t') S = Inr (nullptr, pool t')"
    by blast
  have "cache_run pf (replicate (Suc n) (Borrow S)) \<lparr>pool = c, borrowed = bs\<rparr>
          = Inr (map Borrowed (?r # rs), t')"
    using ret nonnull run by simp
  with props nonnull show ?case
    by (intro exI [of _ "?r # rs"] exI [of _ t']) simp
qed

text \<open>
  C6, as stated, fails for a sequence that gives back a region the client does not hold: on
  the fresh pool, \<open>giveBack\<close> of the first slot's top region passes every test and
  pushes the slot base, so the free list has 101 entries for 100 slots, and no number of
  borrowed slots makes the sum 100.
\<close>

theorem C6_unborrowed_giveBack_counterexample:
  "StackCache_new example_platform example_vm 8192 = Inr example_cache \<and>
   length (freeList' example_cache) = unat kNumGuarded \<and>
   cache_run example_platform [GiveBack 0x10001000 8192] \<lparr>pool = example_cache, borrowed = []\<rparr>
     = Inr ([GaveBack True],
            \<lparr>pool = example_cache\<lparr>freeList' := freeList' example_cache @ [0x10000000]\<rparr>,
             borrowed = []\<rparr>) \<and>
   length (freeList' example_cache @ [0x10000000]) = 101 \<and>
   unat kNumGuarded = 100"
  by code_simp

text \<open>
  C6, amended. Start from a pool and a set of held regions that satisfy the invariant, and
  run any sequence of \<open>borrow\<close> and \<open>giveBack\<close> in which the client borrows sizes that
  fit and gives back only a region it holds, with the size it borrowed it for. Then every
  operation completes, and afterwards the free list and the held regions together number
  100, and every address on the free list lies in the backing mapping and on a slot
  boundary. For every sequence whatsoever that completes, every address on the free list
  lies in the backing mapping, and also on a slot boundary where assertions are compiled
  in. On a pool with 100 free slots, 100 successive borrows of a matching size succeed
  and the 101st returns the null pointer.
\<close>

theorem C6_pool_invariant:
  "(tracked_inv pf t \<and> conforming pf ops t \<longrightarrow>
      (\<exists>rs t'. cache_run pf ops t = Inr (rs, t') \<and>
         length (freeList' (pool t')) + length (borrowed t') = unat kNumGuarded \<and>
         list_all (in_mapping (pool t')) (freeList' (pool t')) \<and>
         list_all (slot_aligned (pool t')) (freeList' (pool t')) \<and>
         storage' (pool t') = storage' (pool t) \<and>
         allocSize' (pool t') = allocSize' (pool t) \<and>
         tracked_inv pf t')) \<and>
   (cache_run pf ops t = Inr (rs, t') \<and>
    list_all (in_mapping (pool t)) (freeList' (pool t)) \<longrightarrow>
      list_all (in_mapping (pool t')) (freeList' (pool t'))) \<and>
   (cache_run pf ops t = Inr (rs, t') \<and> assertions pf \<and>
    list_all (slot_aligned (pool t)) (freeList' (pool t)) \<longrightarrow>
      list_all (slot_aligned (pool t')) (freeList' (pool t'))) \<and>
   (StackCache_inv pf c \<and> length (freeList' c) = unat kNumGuarded \<and>
    fits pf S \<and> allocSize pf S = allocSize' c \<longrightarrow>
      (\<exists>ps t1. cache_run pf (replicate 100 (Borrow S)) \<lparr>pool = c, borrowed = []\<rparr>
                  = Inr (map Borrowed ps, t1) \<and>
         length ps = 100 \<and> nullptr \<notin> set ps \<and>
         cache_step pf (Borrow S) t1 = Inr (Borrowed nullptr, t1)))"
proof -
  have conf: "\<exists>rs t'. cache_run pf ops t = Inr (rs, t') \<and>
         length (freeList' (pool t')) + length (borrowed t') = unat kNumGuarded \<and>
         list_all (in_mapping (pool t')) (freeList' (pool t')) \<and>
         list_all (slot_aligned (pool t')) (freeList' (pool t')) \<and>
         storage' (pool t') = storage' (pool t) \<and>
         allocSize' (pool t') = allocSize' (pool t) \<and>
         tracked_inv pf t'"
    if "tracked_inv pf t" "conforming pf ops t"
  proof -
    from tracked_inv_run [OF that] obtain rs t' where
      run: "cache_run pf ops t = Inr (rs, t')" and inv': "tracked_inv pf t'"
      and same: "storage' (pool t') = storage' (pool t)" "allocSize' (pool t') = allocSize' (pool t)"
      by blast
    from inv' have "list_all (\<lambda>p. in_mapping (pool t') p \<and> slot_aligned (pool t') p)
                      (freeList' (pool t'))"
      and "length (freeList' (pool t')) + length (borrowed t') = unat kNumGuarded"
      by (simp_all add: tracked_inv_def StackCache_inv_def)
    with run inv' same show ?thesis by (auto simp: list_all_iff)
  qed
  have fresh: "\<exists>ps t1. cache_run pf (replicate 100 (Borrow S)) \<lparr>pool = c, borrowed = []\<rparr>
                  = Inr (map Borrowed ps, t1) \<and>
         length ps = 100 \<and> nullptr \<notin> set ps \<and>
         cache_step pf (Borrow S) t1 = Inr (Borrowed nullptr, t1)"
    if "StackCache_inv pf c" "length (freeList' c) = unat kNumGuarded"
      "fits pf S" "allocSize pf S = allocSize' c"
  proof -
    from that(2) have len: "length (freeList' c) = 100" by (simp add: kNumGuarded_def)
    from borrow_all [OF that(1,3,4) len, of "[]"] obtain ps t1 where
      "cache_run pf (replicate 100 (Borrow S)) \<lparr>pool = c, borrowed = []\<rparr>
          = Inr (map Borrowed ps, t1)"
      "length ps = 100" "nullptr \<notin> set ps" "borrow pf (pool t1) S = Inr (nullptr, pool t1)"
      by blast
    then show ?thesis by (intro exI [of _ ps] exI [of _ t1]) simp
  qed
  from conf fresh cache_run_keeps_mapping [of pf ops t rs t']
    cache_run_keeps_aligned [of pf ops t rs t']
  show ?thesis by blast
qed


lemma example_tracked_inv:
  "tracked_inv example_platform \<lparr>pool = example_cache, borrowed = []\<rparr>"
  using example_cache_inv
  by (simp add: tracked_inv_def example_cache_fields kNumGuarded_def)

lemma example_borrow:
  "borrow example_platform example_cache 8192
     = Inr (0x1012A000, example_cache\<lparr>freeList' := butlast (freeList' example_cache)\<rparr>)"
  using borrow_result [OF example_cache_inv example_fits]
  by (simp add: example_allocSize example_cache_fields)

lemma example_conforming:
  "conforming example_platform [Borrow 8192, GiveBack 0x1012A000 8192]
     \<lparr>pool = example_cache, borrowed = []\<rparr>"
  by (simp add: example_borrow example_fits nullptr_def split: sum.splits prod.splits)

lemma example_giveBack_run:
  "cache_run example_platform [GiveBack 0x10001000 8192] \<lparr>pool = example_cache, borrowed = []\<rparr>
     = Inr ([GaveBack True],
            \<lparr>pool = example_cache\<lparr>freeList' := freeList' example_cache @ [0x10000000]\<rparr>,
             borrowed = []\<rparr>)"
  by code_simp

theorem C6_pool_invariant_witness:
  "(\<exists>rs t'. cache_run example_platform [Borrow 8192, GiveBack 0x1012A000 8192]
               \<lparr>pool = example_cache, borrowed = []\<rparr> = Inr (rs, t') \<and>
      length (freeList' (pool t')) + length (borrowed t') = unat kNumGuarded \<and>
      list_all (in_mapping (pool t')) (freeList' (pool t')) \<and>
      list_all (slot_aligned (pool t')) (freeList' (pool t'))) \<and>
   list_all (in_mapping example_cache) (freeList' example_cache @ [0x10000000]) \<and>
   list_all (slot_aligned example_cache) (freeList' example_cache @ [0x10000000]) \<and>
   (\<exists>ps t1. cache_run example_platform (replicate 100 (Borrow 8192))
               \<lparr>pool = example_cache, borrowed = []\<rparr> = Inr (map Borrowed ps, t1) \<and>
      length ps = 100 \<and> nullptr \<notin> set ps \<and>
      cache_step example_platform (Borrow 8192) t1 = Inr (Borrowed nullptr, t1))"
proof -
  let ?t = "\<lparr>pool = example_cache, borrowed = []\<rparr>"
  let ?ops = "[Borrow 8192, GiveBack 0x1012A000 8192]"
  let ?t' = "\<lparr>pool = example_cache\<lparr>freeList' := freeList' example_cache @ [0x10000000]\<rparr>,
             borrowed = []\<rparr>"
  have tests: "list_all (in_mapping example_cache) (freeList' example_cache)"
    "list_all (slot_aligned example_cache) (freeList' example_cache)"
    using example_cache_inv by (simp_all add: StackCache_inv_def list_all_iff)
  have on: "assertions example_platform" by (simp add: example_platform_def)
  have len: "length (freeList' example_cache) = unat kNumGuarded"
    by (simp add: example_cache_fields kNumGuarded_def)
  have cls: "allocSize example_platform 8192 = allocSize' example_cache"
    by (simp add: example_allocSize example_cache_fields)
  have a: "\<exists>rs t'. cache_run example_platform ?ops ?t = Inr (rs, t') \<and>
      length (freeList' (pool t')) + length (borrowed t') = unat kNumGuarded \<and>
      list_all (in_mapping (pool t')) (freeList' (pool t')) \<and>
      list_all (slot_aligned (pool t')) (freeList' (pool t'))"
    using C6_pool_invariant [of example_platform ?t ?ops "[]" ?t example_cache 8192]
      example_tracked_inv example_conforming
    by blast
  have b: "list_all (in_mapping (pool ?t')) (freeList' (pool ?t'))"
    using C6_pool_invariant
            [of example_platform ?t "[GiveBack 0x10001000 8192]" "[GaveBack True]" ?t'
               example_cache 8192]
      example_giveBack_run tests(1)
    by simp
  have c: "list_all (slot_aligned (pool ?t')) (freeList' (pool ?t'))"
    using C6_pool_invariant
            [of example_platform ?t "[GiveBack 0x10001000 8192]" "[GaveBack True]" ?t'
               example_cache 8192]
      example_giveBack_run tests(2) on
    by simp
  have d: "\<exists>ps t1. cache_run example_platform (replicate 100 (Borrow 8192)) ?t
                 = Inr (map Borrowed ps, t1) \<and>
      length ps = 100 \<and> nullptr \<notin> set ps \<and>
      cache_step example_platform (Borrow 8192) t1 = Inr (Borrowed nullptr, t1)"
    using C6_pool_invariant [of example_platform ?t ?ops "[]" ?t example_cache 8192]
      example_cache_inv len example_fits cls
    by blast
  from a b c d show ?thesis by simp
qed

section \<open>Properties of the cache manager\<close>

lemma kMaxInUse_unat: "unat kMaxInUse = 100"
  by (simp add: kMaxInUse_def)

lemma getStackCache_cases:
  assumes "getStackCache pf sys m S = Inr (r, m')"
  shows "(inUse' m < kMaxInUse \<and> m' = m\<lparr>inUse' := inUse' m + 1\<rparr> \<and>
          (\<exists>c. StackCache_new pf sys S = Inr c \<and> r = Some (StackCacheEntry c)))
       \<or> (\<not> inUse' m < kMaxInUse \<and> r = None \<and> m' = m)"
  using assms by (auto simp: getStackCache_def split: if_splits sum.splits)

lemma inUse_succ:
  assumes "inUse' m < kMaxInUse"
  shows "unat (inUse' m + 1) = unat (inUse' m) + 1" and "inUse' m + 1 \<le> kMaxInUse"
proof -
  from assms have lt: "unat (inUse' m) < 100"
    by (simp add: word_less_nat_alt kMaxInUse_unat)
  then have "unat (inUse' m) + unat (1 :: size_t) < 2 ^ 64" by simp
  then show u: "unat (inUse' m + 1) = unat (inUse' m) + 1"
    using unat_add_lem [of "inUse' m" 1] by simp
  with lt show "inUse' m + 1 \<le> kMaxInUse"
    by (simp add: word_le_nat_alt kMaxInUse_unat)
qed

lemma inUse_pred:
  assumes "0 < unat (inUse' m)" and "inUse' m \<le> kMaxInUse"
  shows "unat (inUse' m - 1) = unat (inUse' m) - 1" and "inUse' m - 1 \<le> kMaxInUse"
    and "inUse' m - 1 < kMaxInUse"
proof -
  from assms(1) have "inUse' m \<noteq> 0" by (simp add: unat_gt_0)
  then show u: "unat (inUse' m - 1) = unat (inUse' m) - 1" by (rule unat_minus_one)
  from assms(2) have "unat (inUse' m) \<le> 100" by (simp add: word_le_nat_alt kMaxInUse_unat)
  with u assms(1) show "inUse' m - 1 \<le> kMaxInUse" "inUse' m - 1 < kMaxInUse"
    by (simp_all add: word_le_nat_alt word_less_nat_alt kMaxInUse_unat)
qed

lemma release_cases:
  assumes "StackCacheEntry_delete pf sys m e = Inr m'"
  shows "m' = m\<lparr>inUse' := inUse' m - 1\<rparr>"
  using assms
  by (auto simp: StackCacheEntry_delete_def CacheManager_giveBack_def
      split: if_splits sum.splits)

lemma pools_inv_step:
  assumes "pools_inv w" and "manager_step pf x w = Inr w'"
  shows "pools_inv w'"
proof (cases x)
  case (Get sys S)
  show ?thesis
  proof (cases "getStackCache pf sys (mgr w) S")
    case (Inl e)
    with assms(2) Get show ?thesis by simp
  next
    case (Inr rm)
    obtain r m' where rm: "rm = (r, m')" by (cases rm)
    from getStackCache_cases [OF Inr [unfolded rm]] show ?thesis
    proof (elim disjE conjE exE)
      fix c
      assume lt: "inUse' (mgr w) < kMaxInUse" and m': "m' = (mgr w)\<lparr>inUse' := inUse' (mgr w) + 1\<rparr>"
        and r: "r = Some (StackCacheEntry c)"
      from assms(2) Get Inr rm r have w': "w' = \<lparr>mgr = m', live = live w @ [StackCacheEntry c]\<rparr>"
        by simp
      from inUse_succ [OF lt] assms(1) m' w' show ?thesis
        by (simp add: pools_inv_def)
    next
      assume "r = None" "m' = mgr w"
      with assms Get Inr rm show ?thesis by (auto simp: pools_inv_def)
    qed
  qed
next
  case (Release sys i)
  show ?thesis
  proof (cases "i < length (live w)")
    case False
    with assms Release show ?thesis by simp
  next
    case True
    show ?thesis
    proof (cases "StackCacheEntry_delete pf sys (mgr w) (live w ! i)")
      case (Inl e)
      with assms(2) Release True show ?thesis by simp
    next
      case (Inr m')
      from release_cases [OF Inr] have m': "m' = (mgr w)\<lparr>inUse' := inUse' (mgr w) - 1\<rparr>" .
      from assms(2) Release True Inr
      have w': "w' = \<lparr>mgr = m', live = take i (live w) @ drop (Suc i) (live w)\<rparr>" by simp
      from assms(1) True have pos: "0 < unat (inUse' (mgr w))" and le: "inUse' (mgr w) \<le> kMaxInUse"
        by (auto simp: pools_inv_def)
      from True have "length (take i (live w) @ drop (Suc i) (live w)) = length (live w) - 1"
        by simp
      with inUse_pred [OF pos le] assms(1) m' w' show ?thesis
        by (simp add: pools_inv_def)
    qed
  qed
qed

lemma pools_inv_run:
  assumes "pools_inv w" and "manager_run pf ops w = Inr w'"
  shows "pools_inv w'"
  using assms
proof (induction ops arbitrary: w)
  case Nil
  then show ?case by simp
next
  case (Cons x xs)
  from Cons.prems(2) obtain w1 where step: "manager_step pf x w = Inr w1"
    and rest: "manager_run pf xs w1 = Inr w'"
    by (auto split: sum.splits)
  from pools_inv_step [OF Cons.prems(1) step] rest show ?case by (rule Cons.IH)
qed

lemma pools_inv_initial: "pools_inv pools_initial"
  by (simp add: pools_inv_def pools_initial_def CacheManager_new_def kMaxInUse_def)


lemma getStackCache_at_cap:
  assumes "inUse' m \<le> kMaxInUse"
  shows "getStackCache pf sys m S = Inr (r, m') \<Longrightarrow>
           (r = None \<longleftrightarrow> inUse' m = kMaxInUse) \<and> (r = None \<longrightarrow> m' = m) \<and>
           (r \<noteq> None \<longrightarrow> m' = m\<lparr>inUse' := inUse' m + 1\<rparr> \<and>
              (\<exists>c. StackCache_new pf sys S = Inr c \<and> r = Some (StackCacheEntry c)))"
  using assms by (auto dest!: getStackCache_cases)

lemma getStackCache_full:
  "inUse' m = kMaxInUse \<Longrightarrow> getStackCache pf sys m S = Inr (None, m)"
  by (simp add: getStackCache_def)

lemma getStackCache_room:
  assumes "inUse' m \<le> kMaxInUse" "inUse' m \<noteq> kMaxInUse" "StackCache_new pf sys S = Inr c"
  shows "getStackCache pf sys m S = Inr (Some (StackCacheEntry c), m\<lparr>inUse' := inUse' m + 1\<rparr>)"
  using assms by (simp add: getStackCache_def)

lemma release_ok:
  assumes "0 < unat (inUse' m)" and "StackCache_delete pf sys (cache e) = Inr ()"
  shows "StackCacheEntry_delete pf sys m e = Inr (m\<lparr>inUse' := inUse' m - 1\<rparr>)"
proof -
  from assms(1) have "0 < inUse' m" by (simp add: word_less_nat_alt)
  with assms(2) show ?thesis
    by (simp add: StackCacheEntry_delete_def CacheManager_giveBack_def)
qed

text \<open>
  C7. After every run of \<open>getStackCache\<close> calls and handle releases that starts from the
  fresh manager, the counter is the number of live handles and is at most \<open>kMaxInUse\<close>
  (100). Whenever \<open>getStackCache\<close> returns, it returns the null handle exactly when the
  counter is at the cap, leaving the counter alone; otherwise it returns a handle to a pool
  it has just constructed and the counter is one higher, still within the cap. Releasing a
  live handle lowers the counter by one. When the counter was at the cap, the next request
  after a release returns a handle and the one after it returns the null handle.
\<close>

theorem C7_manager_cap:
  "manager_run pf ops pools_initial = Inr w \<longrightarrow>
     unat (inUse' (mgr w)) = length (live w) \<and> inUse' (mgr w) \<le> kMaxInUse \<and>
     (\<forall>sys S r m'. getStackCache pf sys (mgr w) S = Inr (r, m') \<longrightarrow>
        (r = None \<longleftrightarrow> inUse' (mgr w) = kMaxInUse) \<and>
        (r = None \<longrightarrow> m' = mgr w) \<and>
        (r \<noteq> None \<longrightarrow>
           inUse' m' = inUse' (mgr w) + 1 \<and> unat (inUse' m') = length (live w) + 1 \<and>
           inUse' m' \<le> kMaxInUse \<and>
           (\<exists>c. StackCache_new pf sys S = Inr c \<and> r = Some (StackCacheEntry c)))) \<and>
     (\<forall>sys S. inUse' (mgr w) = kMaxInUse \<longrightarrow>
        getStackCache pf sys (mgr w) S = Inr (None, mgr w)) \<and>
     (\<forall>sys S c. inUse' (mgr w) \<noteq> kMaxInUse \<and> StackCache_new pf sys S = Inr c \<longrightarrow>
        getStackCache pf sys (mgr w) S
          = Inr (Some (StackCacheEntry c), (mgr w)\<lparr>inUse' := inUse' (mgr w) + 1\<rparr>)) \<and>
     (\<forall>sys i. i < length (live w) \<and> StackCache_delete pf sys (cache (live w ! i)) = Inr () \<longrightarrow>
        StackCacheEntry_delete pf sys (mgr w) (live w ! i)
          = Inr ((mgr w)\<lparr>inUse' := inUse' (mgr w) - 1\<rparr>)) \<and>
     (\<forall>sys i m1. i < length (live w) \<and>
        StackCacheEntry_delete pf sys (mgr w) (live w ! i) = Inr m1 \<longrightarrow>
        inUse' m1 = inUse' (mgr w) - 1 \<and> unat (inUse' m1) = length (live w) - 1 \<and>
        (\<forall>sys1 S1 r1 m2 sys2 S2 r2 m3.
           inUse' (mgr w) = kMaxInUse \<and>
           getStackCache pf sys1 m1 S1 = Inr (r1, m2) \<and>
           getStackCache pf sys2 m2 S2 = Inr (r2, m3) \<longrightarrow>
           r1 \<noteq> None \<and> r2 = None))"
proof
  assume run: "manager_run pf ops pools_initial = Inr w"
  from pools_inv_run [OF pools_inv_initial run]
  have len: "unat (inUse' (mgr w)) = length (live w)" and le: "inUse' (mgr w) \<le> kMaxInUse"
    by (simp_all add: pools_inv_def)
  have get: "(r = None \<longleftrightarrow> inUse' (mgr w) = kMaxInUse) \<and>
        (r = None \<longrightarrow> m' = mgr w) \<and>
        (r \<noteq> None \<longrightarrow>
           inUse' m' = inUse' (mgr w) + 1 \<and> unat (inUse' m') = length (live w) + 1 \<and>
           inUse' m' \<le> kMaxInUse \<and>
           (\<exists>c. StackCache_new pf sys S = Inr c \<and> r = Some (StackCacheEntry c)))"
    if g: "getStackCache pf sys (mgr w) S = Inr (r, m')" for sys S r m'
  proof -
    note c = getStackCache_at_cap [OF le g]
    show ?thesis
    proof (cases "r = None")
      case True
      with c show ?thesis by simp
    next
      case False
      with c have lt: "inUse' (mgr w) < kMaxInUse" using le by (auto simp: less_le)
      from False c inUse_succ [OF lt] len show ?thesis by simp
    qed
  qed
  have rel: "inUse' m1 = inUse' (mgr w) - 1 \<and> unat (inUse' m1) = length (live w) - 1 \<and>
        (\<forall>sys1 S1 r1 m2 sys2 S2 r2 m3.
           inUse' (mgr w) = kMaxInUse \<and>
           getStackCache pf sys1 m1 S1 = Inr (r1, m2) \<and>
           getStackCache pf sys2 m2 S2 = Inr (r2, m3) \<longrightarrow>
           r1 \<noteq> None \<and> r2 = None)"
    if i: "i < length (live w)"
      and d: "StackCacheEntry_delete pf sys (mgr w) (live w ! i) = Inr m1" for sys i m1
  proof -
    from release_cases [OF d] have m1: "m1 = (mgr w)\<lparr>inUse' := inUse' (mgr w) - 1\<rparr>" .
    from i len have pos: "0 < unat (inUse' (mgr w))" by auto
    note pred = inUse_pred [OF pos le]
    have after: "r1 \<noteq> None \<and> r2 = None"
      if full: "inUse' (mgr w) = kMaxInUse"
        and g1: "getStackCache pf sys1 m1 S1 = Inr (r1, m2)"
        and g2: "getStackCache pf sys2 m2 S2 = Inr (r2, m3)"
      for sys1 S1 r1 m2 sys2 S2 r2 m3
    proof -
      from pred(3) m1 have lt: "inUse' m1 < kMaxInUse" by simp
      with getStackCache_cases [OF g1] have r1: "r1 \<noteq> None"
        and m2: "m2 = m1\<lparr>inUse' := inUse' m1 + 1\<rparr>" by auto
      from m2 m1 full have "inUse' m2 = kMaxInUse" by simp
      with getStackCache_full [of m2 pf sys2 S2] g2 have "r2 = None" by simp
      with r1 show ?thesis by simp
    qed
    have a1: "inUse' m1 = inUse' (mgr w) - 1" by (simp add: m1)
    have a2: "unat (inUse' m1) = length (live w) - 1" using pred(1) len m1 by simp
    have a3: "\<forall>sys1 S1 r1 m2 sys2 S2 r2 m3.
           inUse' (mgr w) = kMaxInUse \<and>
           getStackCache pf sys1 m1 S1 = Inr (r1, m2) \<and>
           getStackCache pf sys2 m2 S2 = Inr (r2, m3) \<longrightarrow>
           r1 \<noteq> None \<and> r2 = None"
      by (intro allI impI, elim conjE) (rule after)
    from a1 a2 a3 show ?thesis by (intro conjI)
  qed
  have ok: "StackCacheEntry_delete pf sys (mgr w) (live w ! i)
          = Inr ((mgr w)\<lparr>inUse' := inUse' (mgr w) - 1\<rparr>)"
    if "i < length (live w)" "StackCache_delete pf sys (cache (live w ! i)) = Inr ()" for sys i
    using that len by (intro release_ok) auto
  show "unat (inUse' (mgr w)) = length (live w) \<and> inUse' (mgr w) \<le> kMaxInUse \<and>
     (\<forall>sys S r m'. getStackCache pf sys (mgr w) S = Inr (r, m') \<longrightarrow>
        (r = None \<longleftrightarrow> inUse' (mgr w) = kMaxInUse) \<and>
        (r = None \<longrightarrow> m' = mgr w) \<and>
        (r \<noteq> None \<longrightarrow>
           inUse' m' = inUse' (mgr w) + 1 \<and> unat (inUse' m') = length (live w) + 1 \<and>
           inUse' m' \<le> kMaxInUse \<and>
           (\<exists>c. StackCache_new pf sys S = Inr c \<and> r = Some (StackCacheEntry c)))) \<and>
     (\<forall>sys S. inUse' (mgr w) = kMaxInUse \<longrightarrow>
        getStackCache pf sys (mgr w) S = Inr (None, mgr w)) \<and>
     (\<forall>sys S c. inUse' (mgr w) \<noteq> kMaxInUse \<and> StackCache_new pf sys S = Inr c \<longrightarrow>
        getStackCache pf sys (mgr w) S
          = Inr (Some (StackCacheEntry c), (mgr w)\<lparr>inUse' := inUse' (mgr w) + 1\<rparr>)) \<and>
     (\<forall>sys i. i < length (live w) \<and> StackCache_delete pf sys (cache (live w ! i)) = Inr () \<longrightarrow>
        StackCacheEntry_delete pf sys (mgr w) (live w ! i)
          = Inr ((mgr w)\<lparr>inUse' := inUse' (mgr w) - 1\<rparr>)) \<and>
     (\<forall>sys i m1. i < length (live w) \<and>
        StackCacheEntry_delete pf sys (mgr w) (live w ! i) = Inr m1 \<longrightarrow>
        inUse' m1 = inUse' (mgr w) - 1 \<and> unat (inUse' m1) = length (live w) - 1 \<and>
        (\<forall>sys1 S1 r1 m2 sys2 S2 r2 m3.
           inUse' (mgr w) = kMaxInUse \<and>
           getStackCache pf sys1 m1 S1 = Inr (r1, m2) \<and>
           getStackCache pf sys2 m2 S2 = Inr (r2, m3) \<longrightarrow>
           r1 \<noteq> None \<and> r2 = None))"
  proof (intro conjI)
    show "unat (inUse' (mgr w)) = length (live w)" by (fact len)
    show "inUse' (mgr w) \<le> kMaxInUse" by (fact le)
    show "\<forall>sys S r m'. getStackCache pf sys (mgr w) S = Inr (r, m') \<longrightarrow>
        (r = None \<longleftrightarrow> inUse' (mgr w) = kMaxInUse) \<and>
        (r = None \<longrightarrow> m' = mgr w) \<and>
        (r \<noteq> None \<longrightarrow>
           inUse' m' = inUse' (mgr w) + 1 \<and> unat (inUse' m') = length (live w) + 1 \<and>
           inUse' m' \<le> kMaxInUse \<and>
           (\<exists>c. StackCache_new pf sys S = Inr c \<and> r = Some (StackCacheEntry c)))"
      by (intro allI impI) (rule get)
    show "\<forall>sys S. inUse' (mgr w) = kMaxInUse \<longrightarrow>
        getStackCache pf sys (mgr w) S = Inr (None, mgr w)"
      by (intro allI impI) (rule getStackCache_full)
    show "\<forall>sys S c. inUse' (mgr w) \<noteq> kMaxInUse \<and> StackCache_new pf sys S = Inr c \<longrightarrow>
        getStackCache pf sys (mgr w) S
          = Inr (Some (StackCacheEntry c), (mgr w)\<lparr>inUse' := inUse' (mgr w) + 1\<rparr>)"
      by (intro allI impI, elim conjE) (rule getStackCache_room [OF le])
    show "\<forall>sys i. i < length (live w) \<and> StackCache_delete pf sys (cache (live w ! i)) = Inr () \<longrightarrow>
        StackCacheEntry_delete pf sys (mgr w) (live w ! i)
          = Inr ((mgr w)\<lparr>inUse' := inUse' (mgr w) - 1\<rparr>)"
      by (intro allI impI, elim conjE) (rule ok)
    show "\<forall>sys i m1. i < length (live w) \<and>
        StackCacheEntry_delete pf sys (mgr w) (live w ! i) = Inr m1 \<longrightarrow>
        inUse' m1 = inUse' (mgr w) - 1 \<and> unat (inUse' m1) = length (live w) - 1 \<and>
        (\<forall>sys1 S1 r1 m2 sys2 S2 r2 m3.
           inUse' (mgr w) = kMaxInUse \<and>
           getStackCache pf sys1 m1 S1 = Inr (r1, m2) \<and>
           getStackCache pf sys2 m2 S2 = Inr (r2, m3) \<longrightarrow>
           r1 \<noteq> None \<and> r2 = None)"
      by (intro allI impI, elim conjE) (rule rel)
  qed
qed


lemma gets_run:
  assumes new: "StackCache_new pf sys S = Inr c" and room: "unat (inUse' m) + n \<le> 100"
  shows "manager_run pf (replicate n (Get sys S)) \<lparr>mgr = m, live = L\<rparr>
           = Inr \<lparr>mgr = m\<lparr>inUse' := inUse' m + of_nat n\<rparr>,
                  live = L @ replicate n (StackCacheEntry c)\<rparr>"
  using room
proof (induction n arbitrary: m L)
  case 0
  then show ?case by simp
next
  case (Suc n)
  then have lt: "inUse' m < kMaxInUse"
    by (simp add: word_less_nat_alt kMaxInUse_unat)
  then have le: "inUse' m \<le> kMaxInUse" by simp
  from lt have ne: "inUse' m \<noteq> kMaxInUse" by simp
  note g = getStackCache_room [OF le ne new]
  from inUse_succ(1) [OF lt] Suc.prems
  have "unat (inUse' (m\<lparr>inUse' := inUse' m + 1\<rparr>)) + n \<le> 100" by simp
  from Suc.IH [OF this, of "L @ [StackCacheEntry c]"] g show ?case
    by (simp add: replicate_app_Cons_same add.assoc)
qed

theorem C7_manager_cap_witness:
  "\<exists>w. manager_run example_platform (replicate 100 (Get example_vm 8192)) pools_initial = Inr w \<and>
     inUse' (mgr w) = kMaxInUse \<and> length (live w) = 100 \<and>
     getStackCache example_platform example_vm (mgr w) 8192 = Inr (None, mgr w) \<and>
     (\<exists>m1 h m2.
        StackCacheEntry_delete example_platform example_vm (mgr w) (live w ! 0) = Inr m1 \<and>
        unat (inUse' m1) = 99 \<and>
        getStackCache example_platform example_vm m1 8192 = Inr (Some h, m2) \<and>
        inUse' m2 = kMaxInUse \<and>
        getStackCache example_platform example_vm m2 8192 = Inr (None, m2))"
proof -
  let ?ops = "replicate 100 (Get example_vm 8192)"
  let ?w = "\<lparr>mgr = \<lparr>inUse' = 100\<rparr>, live = replicate 100 (StackCacheEntry example_cache)\<rparr>"
  let ?m1 = "\<lparr>inUse' = 99\<rparr>"
  have run: "manager_run example_platform ?ops pools_initial = Inr ?w"
    using gets_run [OF example_cache_new, of CacheManager_new 100 "[]"]
    by (simp add: pools_initial_def CacheManager_new_def)
  note inst = C7_manager_cap [of example_platform ?ops ?w, THEN mp, OF run]
  note at_cap = inst [THEN conjunct2, THEN conjunct2, THEN conjunct2, THEN conjunct1, rule_format]
  note release = inst [THEN conjunct2, THEN conjunct2, THEN conjunct2, THEN conjunct2,
    THEN conjunct2, THEN conjunct1, rule_format]
  have full: "inUse' (mgr ?w) = kMaxInUse" by (simp add: kMaxInUse_def)
  have a: "getStackCache example_platform example_vm (mgr ?w) 8192 = Inr (None, mgr ?w)"
    using full by (rule at_cap)
  have del: "StackCache_delete example_platform example_vm (cache (live ?w ! 0)) = Inr ()"
    by (simp add: StackCache_delete_def example_vm_def example_cache_def nullptr_def)
  have "StackCacheEntry_delete example_platform example_vm (mgr ?w) (live ?w ! 0)
          = Inr ((mgr ?w)\<lparr>inUse' := inUse' (mgr ?w) - 1\<rparr>)"
    using del by (intro release) simp_all
  then have b: "StackCacheEntry_delete example_platform example_vm (mgr ?w) (live ?w ! 0) = Inr ?m1"
    by simp
  have g1: "getStackCache example_platform example_vm ?m1 8192
              = Inr (Some (StackCacheEntry example_cache), \<lparr>inUse' = 100\<rparr>)"
    by (simp add: getStackCache_def example_cache_new kMaxInUse_def)
  have g2: "getStackCache example_platform example_vm \<lparr>inUse' = 100\<rparr> 8192
              = Inr (None, \<lparr>inUse' = 100\<rparr>)"
    by (simp add: getStackCache_def kMaxInUse_def)
  from run full a b g1 g2 show ?thesis
    by (intro exI [of _ ?w] conjI exI [of _ ?m1] exI [of _ "StackCacheEntry example_cache"]
        exI [of _ "\<lparr>inUse' = 100\<rparr>"])
      (simp_all add: kMaxInUse_def)
qed

section \<open>Properties of the allocator\<close>

lemma allocate_holding:
  assumes "stackCache' a = Some e"
  shows "allocate pf sys fallback m a S =
     (case borrow pf (cache e) S of
        Inl err \<Rightarrow> Inl err
      | Inr (p, c') \<Rightarrow>
          if p \<noteq> nullptr
          then Inr \<lparr>result = p, allocator = a\<lparr>stackCache' := Some (StackCacheEntry c')\<rparr>,
                    manager = m, calls = [Call_borrow S]\<rparr>
          else Inr \<lparr>result = fallback S, allocator = a\<lparr>stackCache' := Some (StackCacheEntry c')\<rparr>,
                    manager = m, calls = [Call_borrow S, Call_fallback_allocate S]\<rparr>)"
  using assms by (simp add: allocate_def split: sum.splits prod.splits)

lemma allocate_unguarded:
  assumes "stackCache' a = None" "\<not> useGuardPages' a"
  shows "allocate pf sys fallback m a S =
     Inr \<lparr>result = fallback S, allocator = a, manager = m,
          calls = [Call_fallback_allocate S]\<rparr>"
  using assms by (simp add: allocate_def)

lemma allocate_asking:
  assumes "stackCache' a = None" "useGuardPages' a"
  shows "allocate pf sys fallback m a S =
     (case getStackCache pf sys m S of
        Inl e \<Rightarrow> Inl e
      | Inr (None, m') \<Rightarrow>
          Inr \<lparr>result = fallback S, allocator = a\<lparr>stackCache' := None\<rparr>, manager = m',
               calls = [Call_getStackCache S, Call_fallback_allocate S]\<rparr>
      | Inr (Some e, m') \<Rightarrow>
          (case borrow pf (cache e) S of
             Inl err \<Rightarrow> Inl err
           | Inr (p, c') \<Rightarrow>
               if p \<noteq> nullptr
               then Inr \<lparr>result = p, allocator = a\<lparr>stackCache' := Some (StackCacheEntry c')\<rparr>,
                         manager = m', calls = [Call_getStackCache S, Call_borrow S]\<rparr>
               else Inr \<lparr>result = fallback S,
                         allocator = a\<lparr>stackCache' := Some (StackCacheEntry c')\<rparr>,
                         manager = m',
                         calls = [Call_getStackCache S, Call_borrow S, Call_fallback_allocate S]\<rparr>))"
  using assms by (simp add: allocate_def split: sum.splits option.splits prod.splits)


lemma giveBack_same:
  assumes "giveBack pf c limit S = Inr (b, c')"
  shows "storage' c' = storage' c \<and> allocSize' c' = allocSize' c"
  using assms by (auto simp: giveBack_def Let_def split: if_splits)

lemma borrow_same:
  assumes "borrow pf c S = Inr (p, c')"
  shows "storage' c' = storage' c \<and> allocSize' c' = allocSize' c"
  using borrow_shrinks [OF assms] by simp

lemma allocate_holding_out:
  assumes held: "stackCache' a = Some e" and ret: "allocate pf sys fallback m a S = Inr out"
  shows "\<exists>p c'. borrow pf (cache e) S = Inr (p, c') \<and>
           allocator out = a\<lparr>stackCache' := Some (StackCacheEntry c')\<rparr> \<and>
           manager out = m \<and>
           (p \<noteq> nullptr \<longrightarrow> calls out = [Call_borrow S] \<and> result out = p) \<and>
           (p = nullptr \<longrightarrow>
              calls out = [Call_borrow S, Call_fallback_allocate S] \<and> result out = fallback S)"
proof (cases "borrow pf (cache e) S")
  case (Inl err)
  with ret show ?thesis by (simp add: allocate_holding [OF held])
next
  case (Inr pc)
  obtain p c' where pc: "pc = (p, c')" by (cases pc)
  from ret Inr pc show ?thesis
    by (auto simp: allocate_holding [OF held] split: if_splits)
qed

lemma allocate_asking_out:
  assumes none: "stackCache' a = None" and on: "useGuardPages' a"
    and ret: "allocate pf sys fallback m a S = Inr out"
  shows "(getStackCache pf sys m S = Inr (None, manager out) \<and> allocator out = a \<and>
          calls out = [Call_getStackCache S, Call_fallback_allocate S] \<and>
          result out = fallback S)
       \<or> (\<exists>e p c'. getStackCache pf sys m S = Inr (Some e, manager out) \<and>
             borrow pf (cache e) S = Inr (p, c') \<and>
             allocator out = a\<lparr>stackCache' := Some (StackCacheEntry c')\<rparr> \<and>
             (p \<noteq> nullptr \<longrightarrow>
                calls out = [Call_getStackCache S, Call_borrow S] \<and> result out = p) \<and>
             (p = nullptr \<longrightarrow>
                calls out = [Call_getStackCache S, Call_borrow S, Call_fallback_allocate S] \<and>
                result out = fallback S))"
proof (cases "getStackCache pf sys m S")
  case (Inl err)
  with ret show ?thesis by (simp add: allocate_asking [OF none on])
next
  case (Inr rm)
  obtain r m' where rm: "rm = (r, m')" by (cases rm)
  show ?thesis
  proof (cases r)
    case None
    with ret Inr rm none show ?thesis
      by (auto simp: allocate_asking [OF none on])
  next
    case (Some e)
    show ?thesis
    proof (cases "borrow pf (cache e) S")
      case (Inl err)
      with ret Inr rm Some show ?thesis by (simp add: allocate_asking [OF none on])
    next
      case (Inr pc)
      obtain p c' where pc: "pc = (p, c')" by (cases pc)
      from ret \<open>getStackCache pf sys m S = Inr rm\<close> rm Some Inr pc show ?thesis
        by (auto simp: allocate_asking [OF none on] split: if_splits)
    qed
  qed
qed


lemma allocate_out:
  assumes ret: "allocate pf sys fallback m a S = Inr out"
  shows "useGuardPages' (allocator out) = useGuardPages' a \<and>
      (list_ex is_getStackCache (calls out) \<longleftrightarrow> useGuardPages' a \<and> stackCache' a = None) \<and>
      (\<forall>e. stackCache' a = Some e \<longrightarrow>
         manager out = m \<and>
         (\<exists>c'. stackCache' (allocator out) = Some (StackCacheEntry c') \<and>
            storage' c' = storage' (cache e) \<and> allocSize' c' = allocSize' (cache e))) \<and>
      (stackCache' (allocator out) = None \<longrightarrow>
         calls out = (if useGuardPages' a \<and> stackCache' a = None then [Call_getStackCache S] else [])
                     @ [Call_fallback_allocate S] \<and>
         result out = fallback S) \<and>
      (\<forall>c'. stackCache' (allocator out) = Some (StackCacheEntry c') \<longrightarrow>
         (\<exists>e p. borrow pf (cache e) S = Inr (p, c') \<and>
            (stackCache' a = Some e \<or>
             stackCache' a = None \<and> getStackCache pf sys m S = Inr (Some e, manager out)) \<and>
            (p \<noteq> nullptr \<longrightarrow>
               calls out = (if useGuardPages' a \<and> stackCache' a = None
                            then [Call_getStackCache S] else [])
                           @ [Call_borrow S] \<and>
               result out = p) \<and>
            (p = nullptr \<longrightarrow>
               calls out = (if useGuardPages' a \<and> stackCache' a = None
                            then [Call_getStackCache S] else [])
                           @ [Call_borrow S, Call_fallback_allocate S] \<and>
               result out = fallback S)))"
proof (cases "stackCache' a")
  case (Some e)
  from allocate_holding_out [OF Some ret] obtain p c' where
    b: "borrow pf (cache e) S = Inr (p, c')"
    and al: "allocator out = a\<lparr>stackCache' := Some (StackCacheEntry c')\<rparr>"
    and mg: "manager out = m"
    and ok: "p \<noteq> nullptr \<longrightarrow> calls out = [Call_borrow S] \<and> result out = p"
    and no: "p = nullptr \<longrightarrow>
              calls out = [Call_borrow S, Call_fallback_allocate S] \<and> result out = fallback S"
    by blast
  from borrow_same [OF b] have same: "storage' c' = storage' (cache e)"
    "allocSize' c' = allocSize' (cache e)" by simp_all
  have nog: "\<not> list_ex is_getStackCache (calls out)"
    using ok no by (cases "p = nullptr") simp_all
  from Some b al mg ok no same nog show ?thesis by auto
next
  case None
  show ?thesis
  proof (cases "useGuardPages' a")
    case False
    with ret None show ?thesis by (auto simp: allocate_unguarded)
  next
    case True
    from allocate_asking_out [OF None True ret] show ?thesis
    proof (elim disjE conjE exE)
      assume "getStackCache pf sys m S = Inr (None, manager out)" "allocator out = a"
        "calls out = [Call_getStackCache S, Call_fallback_allocate S]" "result out = fallback S"
      with None True show ?thesis by simp
    next
      fix e p c'
      assume g: "getStackCache pf sys m S = Inr (Some e, manager out)"
        and b: "borrow pf (cache e) S = Inr (p, c')"
        and al: "allocator out = a\<lparr>stackCache' := Some (StackCacheEntry c')\<rparr>"
        and ok: "p \<noteq> nullptr \<longrightarrow>
                calls out = [Call_getStackCache S, Call_borrow S] \<and> result out = p"
        and no: "p = nullptr \<longrightarrow>
                calls out = [Call_getStackCache S, Call_borrow S, Call_fallback_allocate S] \<and>
                result out = fallback S"
      have asked: "list_ex is_getStackCache (calls out)"
        using ok no by (cases "p = nullptr") simp_all
      from None True g b al ok no asked show ?thesis by auto
    qed
  qed
qed

lemma deallocate_out:
  assumes "deallocate pf a limit S = Inr (a', cs)"
  shows "\<not> list_ex is_getStackCache cs \<and> useGuardPages' a' = useGuardPages' a \<and>
         (stackCache' a = None \<longrightarrow> stackCache' a' = None) \<and>
         (\<forall>e. stackCache' a = Some e \<longrightarrow>
            (\<exists>e'. stackCache' a' = Some e' \<and> storage' (cache e') = storage' (cache e) \<and>
               allocSize' (cache e') = allocSize' (cache e)))"
proof (cases "stackCache' a")
  case None
  with assms show ?thesis by (auto simp: deallocate_def)
next
  case (Some e)
  show ?thesis
  proof (cases "giveBack pf (cache e) limit S")
    case (Inl err)
    with assms Some show ?thesis by (simp add: deallocate_def)
  next
    case (Inr bc)
    obtain b c' where bc: "bc = (b, c')" by (cases bc)
    from giveBack_same [OF Inr [unfolded bc]] assms Some Inr bc show ?thesis
      by (auto simp: deallocate_def split: if_splits)
  qed
qed

lemma alloc_step_holding:
  assumes "alloc_step pf fallback x a = Inr (a', cs)" and "stackCache' a = Some e"
  shows "\<not> list_ex is_getStackCache cs \<and>
         (\<exists>e'. stackCache' a' = Some e' \<and> storage' (cache e') = storage' (cache e) \<and>
            allocSize' (cache e') = allocSize' (cache e))"
proof (cases x)
  case (Allocate sys m S)
  with assms(1) obtain out where ret: "allocate pf sys fallback m a S = Inr out"
    and a': "a' = allocator out" and cs: "cs = calls out"
    by (auto split: sum.splits)
  from allocate_out [OF ret] assms(2) a' cs show ?thesis by auto
next
  case (Deallocate limit S)
  with assms deallocate_out [of pf a limit S a' cs] show ?thesis by simp
qed

lemma alloc_step_unguarded:
  assumes "alloc_step pf fallback x a = Inr (a', cs)"
    and "\<not> useGuardPages' a" "stackCache' a = None"
  shows "\<not> list_ex is_getStackCache cs \<and> \<not> useGuardPages' a' \<and> stackCache' a' = None"
proof (cases x)
  case (Allocate sys m S)
  with assms show ?thesis by (auto simp: allocate_unguarded)
next
  case (Deallocate limit S)
  with assms deallocate_out [of pf a limit S a' cs] show ?thesis by simp
qed

lemma alloc_run_holding:
  assumes "alloc_run pf fallback ops a = Inr (a', cs)" and "stackCache' a = Some e"
  shows "\<not> list_ex is_getStackCache cs \<and>
         (\<exists>e'. stackCache' a' = Some e' \<and> storage' (cache e') = storage' (cache e) \<and>
            allocSize' (cache e') = allocSize' (cache e))"
  using assms
proof (induction ops arbitrary: a e cs)
  case Nil
  then show ?case by simp
next
  case (Cons x xs)
  from Cons.prems(1) obtain a1 cs1 cs2 where step: "alloc_step pf fallback x a = Inr (a1, cs1)"
    and rest: "alloc_run pf fallback xs a1 = Inr (a', cs2)" and cs: "cs = cs1 @ cs2"
    by (auto split: sum.splits)
  from alloc_step_holding [OF step Cons.prems(2)] obtain e1 where
    n1: "\<not> list_ex is_getStackCache cs1" and h1: "stackCache' a1 = Some e1"
    and s1: "storage' (cache e1) = storage' (cache e)" "allocSize' (cache e1) = allocSize' (cache e)"
    by blast
  from Cons.IH [OF rest h1] n1 s1 cs show ?case by auto
qed

lemma alloc_run_unguarded:
  assumes "alloc_run pf fallback ops a = Inr (a', cs)"
    and "\<not> useGuardPages' a" "stackCache' a = None"
  shows "\<not> list_ex is_getStackCache cs \<and> stackCache' a' = None"
  using assms
proof (induction ops arbitrary: a cs)
  case Nil
  then show ?case by simp
next
  case (Cons x xs)
  from Cons.prems(1) obtain a1 cs1 cs2 where step: "alloc_step pf fallback x a = Inr (a1, cs1)"
    and rest: "alloc_run pf fallback xs a1 = Inr (a', cs2)" and cs: "cs = cs1 @ cs2"
    by (auto split: sum.splits)
  from alloc_step_unguarded [OF step Cons.prems(2,3)]
  have n1: "\<not> list_ex is_getStackCache cs1" and u1: "\<not> useGuardPages' a1"
    and h1: "stackCache' a1 = None" by simp_all
  from Cons.IH [OF rest u1 h1] n1 cs show ?case by auto
qed

text \<open>
  C8, amended. \<open>allocate\<close> asks the manager for a pool handle exactly when guard pages
  are enabled and the allocator holds no handle: on its first call, and again on every
  later call for as long as the manager has answered with no handle. A handle the manager
  grants is stored in the allocator, and the same call goes on to \<open>borrow\<close> from its
  pool; a refusal leaves the allocator as it was and the call uses the fallback. An
  allocator that holds a handle never asks again, in any run of \<open>allocate\<close> and
  \<open>deallocate\<close> calls, and keeps the handle to the same mapping, so it holds at most one
  handle in its life; an allocator without guard pages never asks. With a pool in hand
  \<open>allocate\<close> calls the pool's \<open>borrow\<close> first: a non-null answer is the result, with
  no call of the fallback; the fallback is called, and gives the result, only when there is
  no pool or \<open>borrow\<close> answered with the null pointer.
\<close>

theorem C8_allocate_pool_first:
  "(useGuardPages' a \<and> stackCache' a = None \<and>
    getStackCache pf sys m S = Inr (Some h, m1) \<and> borrow pf (cache h) S = Inr (p, c1) \<longrightarrow>
      allocate pf sys fallback m a S =
        Inr \<lparr>result = (if p \<noteq> nullptr then p else fallback S),
             allocator = a\<lparr>stackCache' := Some (StackCacheEntry c1)\<rparr>,
             manager = m1,
             calls = [Call_getStackCache S, Call_borrow S]
                     @ (if p \<noteq> nullptr then [] else [Call_fallback_allocate S])\<rparr>) \<and>
   (useGuardPages' a \<and> stackCache' a = None \<and> getStackCache pf sys m S = Inr (None, m1) \<longrightarrow>
      allocate pf sys fallback m a S =
        Inr \<lparr>result = fallback S, allocator = a, manager = m1,
             calls = [Call_getStackCache S, Call_fallback_allocate S]\<rparr>) \<and>
   (stackCache' a = Some h \<and> borrow pf (cache h) S = Inr (p, c1) \<longrightarrow>
      allocate pf sys fallback m a S =
        Inr \<lparr>result = (if p \<noteq> nullptr then p else fallback S),
             allocator = a\<lparr>stackCache' := Some (StackCacheEntry c1)\<rparr>,
             manager = m,
             calls = [Call_borrow S]
                     @ (if p \<noteq> nullptr then [] else [Call_fallback_allocate S])\<rparr>) \<and>
   (\<not> useGuardPages' a \<and> stackCache' a = None \<longrightarrow>
      allocate pf sys fallback m a S =
        Inr \<lparr>result = fallback S, allocator = a, manager = m,
             calls = [Call_fallback_allocate S]\<rparr>) \<and>
   (allocate pf sys fallback m a S = Inr out \<longrightarrow>
      useGuardPages' (allocator out) = useGuardPages' a \<and>
      (list_ex is_getStackCache (calls out) \<longleftrightarrow> useGuardPages' a \<and> stackCache' a = None) \<and>
      (\<forall>e. stackCache' a = Some e \<longrightarrow>
         manager out = m \<and>
         (\<exists>c'. stackCache' (allocator out) = Some (StackCacheEntry c') \<and>
            storage' c' = storage' (cache e) \<and> allocSize' c' = allocSize' (cache e))) \<and>
      (stackCache' (allocator out) = None \<longrightarrow>
         calls out = (if useGuardPages' a \<and> stackCache' a = None then [Call_getStackCache S] else [])
                     @ [Call_fallback_allocate S] \<and>
         result out = fallback S) \<and>
      (\<forall>c'. stackCache' (allocator out) = Some (StackCacheEntry c') \<longrightarrow>
         (\<exists>e p. borrow pf (cache e) S = Inr (p, c') \<and>
            (stackCache' a = Some e \<or>
             stackCache' a = None \<and> getStackCache pf sys m S = Inr (Some e, manager out)) \<and>
            (p \<noteq> nullptr \<longrightarrow>
               calls out = (if useGuardPages' a \<and> stackCache' a = None
                            then [Call_getStackCache S] else [])
                           @ [Call_borrow S] \<and>
               result out = p) \<and>
            (p = nullptr \<longrightarrow>
               calls out = (if useGuardPages' a \<and> stackCache' a = None
                            then [Call_getStackCache S] else [])
                           @ [Call_borrow S, Call_fallback_allocate S] \<and>
               result out = fallback S)))) \<and>
   (alloc_run pf fallback ops a = Inr (a', cs) \<and> stackCache' a = Some e0 \<longrightarrow>
      \<not> list_ex is_getStackCache cs \<and>
      (\<exists>e'. stackCache' a' = Some e' \<and> storage' (cache e') = storage' (cache e0) \<and>
         allocSize' (cache e') = allocSize' (cache e0))) \<and>
   (alloc_run pf fallback ops a = Inr (a', cs) \<and> \<not> useGuardPages' a \<and> stackCache' a = None \<longrightarrow>
      \<not> list_ex is_getStackCache cs \<and> stackCache' a' = None)"
proof (intro conjI)
  show "useGuardPages' a \<and> stackCache' a = None \<and>
    getStackCache pf sys m S = Inr (Some h, m1) \<and> borrow pf (cache h) S = Inr (p, c1) \<longrightarrow>
      allocate pf sys fallback m a S =
        Inr \<lparr>result = (if p \<noteq> nullptr then p else fallback S),
             allocator = a\<lparr>stackCache' := Some (StackCacheEntry c1)\<rparr>,
             manager = m1,
             calls = [Call_getStackCache S, Call_borrow S]
                     @ (if p \<noteq> nullptr then [] else [Call_fallback_allocate S])\<rparr>"
    by (simp add: allocate_asking)
  show "useGuardPages' a \<and> stackCache' a = None \<and> getStackCache pf sys m S = Inr (None, m1) \<longrightarrow>
      allocate pf sys fallback m a S =
        Inr \<lparr>result = fallback S, allocator = a, manager = m1,
             calls = [Call_getStackCache S, Call_fallback_allocate S]\<rparr>"
    by (auto simp: allocate_asking)
  show "stackCache' a = Some h \<and> borrow pf (cache h) S = Inr (p, c1) \<longrightarrow>
      allocate pf sys fallback m a S =
        Inr \<lparr>result = (if p \<noteq> nullptr then p else fallback S),
             allocator = a\<lparr>stackCache' := Some (StackCacheEntry c1)\<rparr>,
             manager = m,
             calls = [Call_borrow S]
                     @ (if p \<noteq> nullptr then [] else [Call_fallback_allocate S])\<rparr>"
    by (simp add: allocate_holding)
  show "\<not> useGuardPages' a \<and> stackCache' a = None \<longrightarrow>
      allocate pf sys fallback m a S =
        Inr \<lparr>result = fallback S, allocator = a, manager = m,
             calls = [Call_fallback_allocate S]\<rparr>"
    by (simp add: allocate_unguarded)
  show "allocate pf sys fallback m a S = Inr out \<longrightarrow>
      useGuardPages' (allocator out) = useGuardPages' a \<and>
      (list_ex is_getStackCache (calls out) \<longleftrightarrow> useGuardPages' a \<and> stackCache' a = None) \<and>
      (\<forall>e. stackCache' a = Some e \<longrightarrow>
         manager out = m \<and>
         (\<exists>c'. stackCache' (allocator out) = Some (StackCacheEntry c') \<and>
            storage' c' = storage' (cache e) \<and> allocSize' c' = allocSize' (cache e))) \<and>
      (stackCache' (allocator out) = None \<longrightarrow>
         calls out = (if useGuardPages' a \<and> stackCache' a = None then [Call_getStackCache S] else [])
                     @ [Call_fallback_allocate S] \<and>
         result out = fallback S) \<and>
      (\<forall>c'. stackCache' (allocator out) = Some (StackCacheEntry c') \<longrightarrow>
         (\<exists>e p. borrow pf (cache e) S = Inr (p, c') \<and>
            (stackCache' a = Some e \<or>
             stackCache' a = None \<and> getStackCache pf sys m S = Inr (Some e, manager out)) \<and>
            (p \<noteq> nullptr \<longrightarrow>
               calls out = (if useGuardPages' a \<and> stackCache' a = None
                            then [Call_getStackCache S] else [])
                           @ [Call_borrow S] \<and>
               result out = p) \<and>
            (p = nullptr \<longrightarrow>
               calls out = (if useGuardPages' a \<and> stackCache' a = None
                            then [Call_getStackCache S] else [])
                           @ [Call_borrow S, Call_fallback_allocate S] \<and>
               result out = fallback S)))"
    by (intro impI) (rule allocate_out)
  show "alloc_run pf fallback ops a = Inr (a', cs) \<and> stackCache' a = Some e0 \<longrightarrow>
      \<not> list_ex is_getStackCache cs \<and>
      (\<exists>e'. stackCache' a' = Some e' \<and> storage' (cache e') = storage' (cache e0) \<and>
         allocSize' (cache e') = allocSize' (cache e0))"
    by (intro impI, elim conjE) (rule alloc_run_holding)
  show "alloc_run pf fallback ops a = Inr (a', cs) \<and> \<not> useGuardPages' a \<and> stackCache' a = None \<longrightarrow>
      \<not> list_ex is_getStackCache cs \<and> stackCache' a' = None"
    by (intro impI, elim conjE) (rule alloc_run_unguarded)
qed


text \<open>
  C8, as stated, fails for an allocator whose first request met a manager at its cap: the
  first \<open>allocate\<close> asks the manager, gets no handle and uses the fallback; the second
  \<open>allocate\<close> asks the manager again, and, a pool having been released meanwhile, obtains
  its handle then.
\<close>

theorem C8_asks_again_counterexample:
  "allocate example_platform example_vm example_fallback \<lparr>inUse' = 100\<rparr>
       (GuardPageAllocator_new True) 8192
     = Inr \<lparr>result = 0x7F0000000000, allocator = GuardPageAllocator_new True,
            manager = \<lparr>inUse' = 100\<rparr>,
            calls = [Call_getStackCache 8192, Call_fallback_allocate 8192]\<rparr> \<and>
   allocate example_platform example_vm example_fallback \<lparr>inUse' = 99\<rparr>
       (GuardPageAllocator_new True) 8192
     = Inr \<lparr>result = 0x1012A000,
            allocator =
              \<lparr>useGuardPages' = True,
               stackCache' = Some (StackCacheEntry
                 (example_cache\<lparr>freeList' := butlast (freeList' example_cache)\<rparr>))\<rparr>,
            manager = \<lparr>inUse' = 100\<rparr>,
            calls = [Call_getStackCache 8192, Call_borrow 8192]\<rparr> \<and>
   alloc_run example_platform example_fallback
       [Allocate example_vm \<lparr>inUse' = 100\<rparr> 8192, Allocate example_vm \<lparr>inUse' = 99\<rparr> 8192]
       (GuardPageAllocator_new True)
     = Inr (\<lparr>useGuardPages' = True,
             stackCache' = Some (StackCacheEntry
               (example_cache\<lparr>freeList' := butlast (freeList' example_cache)\<rparr>))\<rparr>,
            [Call_getStackCache 8192, Call_fallback_allocate 8192,
             Call_getStackCache 8192, Call_borrow 8192])"
  by code_simp

lemma example_granted:
  "getStackCache example_platform example_vm \<lparr>inUse' = 99\<rparr> 8192
     = Inr (Some (StackCacheEntry example_cache), \<lparr>inUse' = 100\<rparr>)"
  by (simp add: getStackCache_def kMaxInUse_def example_cache_new)

lemma example_refused:
  "getStackCache example_platform example_vm \<lparr>inUse' = 100\<rparr> 8192 = Inr (None, \<lparr>inUse' = 100\<rparr>)"
  by (simp add: getStackCache_def kMaxInUse_def)

lemma example_holder_run:
  "\<not> isl (alloc_run example_platform example_fallback
       [Allocate example_vm \<lparr>inUse' = 1\<rparr> 8192, Deallocate 0x1012A000 8192,
        Allocate example_vm \<lparr>inUse' = 0\<rparr> 8192]
       example_holder)"
  by code_simp

lemma example_unguarded_run:
  "\<not> isl (alloc_run example_platform example_fallback
       [Allocate example_vm \<lparr>inUse' = 1\<rparr> 8192, Deallocate 0x7F0000000000 8192,
        Allocate example_vm \<lparr>inUse' = 0\<rparr> 8192]
       (GuardPageAllocator_new False))"
  by code_simp

theorem C8_allocate_pool_first_witness:
  "allocate example_platform example_vm example_fallback \<lparr>inUse' = 99\<rparr>
       (GuardPageAllocator_new True) 8192
     = Inr \<lparr>result = 0x1012A000,
            allocator =
              \<lparr>useGuardPages' = True,
               stackCache' = Some (StackCacheEntry
                 (example_cache\<lparr>freeList' := butlast (freeList' example_cache)\<rparr>))\<rparr>,
            manager = \<lparr>inUse' = 100\<rparr>,
            calls = [Call_getStackCache 8192, Call_borrow 8192]\<rparr> \<and>
   allocate example_platform example_vm example_fallback \<lparr>inUse' = 100\<rparr>
       (GuardPageAllocator_new True) 8192
     = Inr \<lparr>result = example_fallback 8192, allocator = GuardPageAllocator_new True,
            manager = \<lparr>inUse' = 100\<rparr>,
            calls = [Call_getStackCache 8192, Call_fallback_allocate 8192]\<rparr> \<and>
   allocate example_platform example_vm example_fallback \<lparr>inUse' = 1\<rparr> example_holder 8192
     = Inr \<lparr>result = 0x1012A000,
            allocator =
              \<lparr>useGuardPages' = True,
               stackCache' = Some (StackCacheEntry
                 (example_cache\<lparr>freeList' := butlast (freeList' example_cache)\<rparr>))\<rparr>,
            manager = \<lparr>inUse' = 1\<rparr>,
            calls = [Call_borrow 8192]\<rparr> \<and>
   allocate example_platform example_vm example_fallback \<lparr>inUse' = 1\<rparr>
       (GuardPageAllocator_new False) 8192
     = Inr \<lparr>result = example_fallback 8192, allocator = GuardPageAllocator_new False,
            manager = \<lparr>inUse' = 1\<rparr>, calls = [Call_fallback_allocate 8192]\<rparr> \<and>
   (\<exists>a' cs e'. alloc_run example_platform example_fallback
         [Allocate example_vm \<lparr>inUse' = 1\<rparr> 8192, Deallocate 0x1012A000 8192,
          Allocate example_vm \<lparr>inUse' = 0\<rparr> 8192]
         example_holder = Inr (a', cs) \<and>
      \<not> list_ex is_getStackCache cs \<and> stackCache' a' = Some e' \<and>
      storage' (cache e') = storage' example_cache) \<and>
   (\<exists>a' cs. alloc_run example_platform example_fallback
         [Allocate example_vm \<lparr>inUse' = 1\<rparr> 8192, Deallocate 0x7F0000000000 8192,
          Allocate example_vm \<lparr>inUse' = 0\<rparr> 8192]
         (GuardPageAllocator_new False) = Inr (a', cs) \<and>
      \<not> list_ex is_getStackCache cs \<and> stackCache' a' = None)"
proof -
  let ?ops1 = "[Allocate example_vm \<lparr>inUse' = 1\<rparr> 8192, Deallocate 0x1012A000 8192,
          Allocate example_vm \<lparr>inUse' = 0\<rparr> 8192]"
  let ?ops2 = "[Allocate example_vm \<lparr>inUse' = 1\<rparr> 8192, Deallocate 0x7F0000000000 8192,
          Allocate example_vm \<lparr>inUse' = 0\<rparr> 8192]"
  let ?lent = "example_cache\<lparr>freeList' := butlast (freeList' example_cache)\<rparr>"
  let ?out = "\<lparr>result = 0x1012A000,
            allocator = \<lparr>useGuardPages' = True, stackCache' = Some (StackCacheEntry ?lent)\<rparr>,
            manager = \<lparr>inUse' = 1\<rparr>,
            calls = [Call_borrow 8192]\<rparr>"
  have held: "stackCache' example_holder = Some (StackCacheEntry example_cache)"
    "example_holder\<lparr>stackCache' := Some (StackCacheEntry ?lent)\<rparr>
       = \<lparr>useGuardPages' = True, stackCache' = Some (StackCacheEntry ?lent)\<rparr>"
    by (simp_all add: example_holder_def)
  have fresh: "useGuardPages' (GuardPageAllocator_new True)"
    "stackCache' (GuardPageAllocator_new True) = None"
    "\<not> useGuardPages' (GuardPageAllocator_new False)"
    "stackCache' (GuardPageAllocator_new False) = None"
    "(GuardPageAllocator_new True)\<lparr>stackCache' := Some (StackCacheEntry ?lent)\<rparr>
       = \<lparr>useGuardPages' = True, stackCache' = Some (StackCacheEntry ?lent)\<rparr>"
    by (simp_all add: GuardPageAllocator_new_def)
  have lent: "borrow example_platform (cache (StackCacheEntry example_cache)) 8192
      = Inr (0x1012A000, ?lent)"
    "(0x1012A000 :: addr) \<noteq> nullptr"
    by (simp_all add: example_borrow nullptr_def)
  obtain a1 cs1 where run1: "alloc_run example_platform example_fallback ?ops1 example_holder
      = Inr (a1, cs1)"
    using example_holder_run
    by (cases "alloc_run example_platform example_fallback ?ops1 example_holder") auto
  obtain a2 cs2 where run2: "alloc_run example_platform example_fallback ?ops2
      (GuardPageAllocator_new False) = Inr (a2, cs2)"
    using example_unguarded_run
    by (cases "alloc_run example_platform example_fallback ?ops2 (GuardPageAllocator_new False)")
      auto
  have a: "allocate example_platform example_vm example_fallback \<lparr>inUse' = 99\<rparr>
       (GuardPageAllocator_new True) 8192
     = Inr \<lparr>result = 0x1012A000,
            allocator = \<lparr>useGuardPages' = True, stackCache' = Some (StackCacheEntry ?lent)\<rparr>,
            manager = \<lparr>inUse' = 100\<rparr>,
            calls = [Call_getStackCache 8192, Call_borrow 8192]\<rparr>"
    using C8_allocate_pool_first
            [where pf = example_platform and sys = example_vm and fallback = example_fallback
               and m = "\<lparr>inUse' = 99\<rparr>" and a = "GuardPageAllocator_new True" and S = 8192
               and h = "StackCacheEntry example_cache" and ?m1.0 = "\<lparr>inUse' = 100\<rparr>"
               and p = "0x1012A000" and ?c1.0 = ?lent and out = ?out and ops = ?ops1
               and a' = a1 and cs = cs1 and ?e0.0 = "StackCacheEntry example_cache",
             THEN conjunct1]
      example_granted lent fresh
    by simp
  have b: "allocate example_platform example_vm example_fallback \<lparr>inUse' = 100\<rparr>
       (GuardPageAllocator_new True) 8192
     = Inr \<lparr>result = example_fallback 8192, allocator = GuardPageAllocator_new True,
            manager = \<lparr>inUse' = 100\<rparr>,
            calls = [Call_getStackCache 8192, Call_fallback_allocate 8192]\<rparr>"
    using C8_allocate_pool_first
            [where pf = example_platform and sys = example_vm and fallback = example_fallback
               and m = "\<lparr>inUse' = 100\<rparr>" and a = "GuardPageAllocator_new True" and S = 8192
               and h = "StackCacheEntry example_cache" and ?m1.0 = "\<lparr>inUse' = 100\<rparr>"
               and p = "0x1012A000" and ?c1.0 = ?lent and out = ?out and ops = ?ops1
               and a' = a1 and cs = cs1 and ?e0.0 = "StackCacheEntry example_cache",
             THEN conjunct2, THEN conjunct1]
      example_refused fresh
    by simp
  have c: "allocate example_platform example_vm example_fallback \<lparr>inUse' = 1\<rparr> example_holder 8192
     = Inr ?out"
    using C8_allocate_pool_first
            [where pf = example_platform and sys = example_vm and fallback = example_fallback
               and m = "\<lparr>inUse' = 1\<rparr>" and a = example_holder and S = 8192
               and h = "StackCacheEntry example_cache" and ?m1.0 = "\<lparr>inUse' = 100\<rparr>"
               and p = "0x1012A000" and ?c1.0 = ?lent and out = ?out and ops = ?ops1
               and a' = a1 and cs = cs1 and ?e0.0 = "StackCacheEntry example_cache",
             THEN conjunct2, THEN conjunct2, THEN conjunct1]
      lent held
    by simp
  have d: "allocate example_platform example_vm example_fallback \<lparr>inUse' = 1\<rparr>
       (GuardPageAllocator_new False) 8192
     = Inr \<lparr>result = example_fallback 8192, allocator = GuardPageAllocator_new False,
            manager = \<lparr>inUse' = 1\<rparr>, calls = [Call_fallback_allocate 8192]\<rparr>"
    using C8_allocate_pool_first
            [where pf = example_platform and sys = example_vm and fallback = example_fallback
               and m = "\<lparr>inUse' = 1\<rparr>" and a = "GuardPageAllocator_new False" and S = 8192
               and h = "StackCacheEntry example_cache" and ?m1.0 = "\<lparr>inUse' = 100\<rparr>"
               and p = "0x1012A000" and ?c1.0 = ?lent and out = ?out and ops = ?ops2
               and a' = a2 and cs = cs2 and ?e0.0 = "StackCacheEntry example_cache",
             THEN conjunct2, THEN conjunct2, THEN conjunct2, THEN conjunct1]
      fresh
    by simp
  have e: "\<not> list_ex is_getStackCache (calls ?out) \<and> manager ?out = \<lparr>inUse' = 1\<rparr>"
    using C8_allocate_pool_first
            [where pf = example_platform and sys = example_vm and fallback = example_fallback
               and m = "\<lparr>inUse' = 1\<rparr>" and a = example_holder and S = 8192
               and h = "StackCacheEntry example_cache" and ?m1.0 = "\<lparr>inUse' = 100\<rparr>"
               and p = "0x1012A000" and ?c1.0 = ?lent and out = ?out and ops = ?ops1
               and a' = a1 and cs = cs1 and ?e0.0 = "StackCacheEntry example_cache",
             THEN conjunct2, THEN conjunct2, THEN conjunct2, THEN conjunct2, THEN conjunct1]
      c held
    by simp
  have f: "\<not> list_ex is_getStackCache cs1 \<and>
      (\<exists>e'. stackCache' a1 = Some e' \<and> storage' (cache e') = storage' example_cache)"
    using C8_allocate_pool_first
            [where pf = example_platform and sys = example_vm and fallback = example_fallback
               and m = "\<lparr>inUse' = 1\<rparr>" and a = example_holder and S = 8192
               and h = "StackCacheEntry example_cache" and ?m1.0 = "\<lparr>inUse' = 100\<rparr>"
               and p = "0x1012A000" and ?c1.0 = ?lent and out = ?out and ops = ?ops1
               and a' = a1 and cs = cs1 and ?e0.0 = "StackCacheEntry example_cache",
             THEN conjunct2, THEN conjunct2, THEN conjunct2, THEN conjunct2, THEN conjunct2,
             THEN conjunct1]
      run1 held(1)
    by auto
  have g: "\<not> list_ex is_getStackCache cs2 \<and> stackCache' a2 = None"
    using C8_allocate_pool_first
            [where pf = example_platform and sys = example_vm and fallback = example_fallback
               and m = "\<lparr>inUse' = 1\<rparr>" and a = "GuardPageAllocator_new False" and S = 8192
               and h = "StackCacheEntry example_cache" and ?m1.0 = "\<lparr>inUse' = 100\<rparr>"
               and p = "0x1012A000" and ?c1.0 = ?lent and out = ?out and ops = ?ops2
               and a' = a2 and cs = cs2 and ?e0.0 = "StackCacheEntry example_cache",
             THEN conjunct2, THEN conjunct2, THEN conjunct2, THEN conjunct2, THEN conjunct2,
             THEN conjunct2]
      run2 fresh
    by simp
  from a b c d f g run1 run2 show ?thesis by blast
qed

end
